theory Spec2Isabelle
  imports Main
begin

section \<open>Schema model (the parser module, src/unnamed/part 001)\<close>

text \<open>
  The interfaces of the parser module, one record each. Field names carry a prefix
  because several interfaces share the field \<open>name\<close>. An optional field
  (\<open>defaultValue?\<close>, \<open>references?\<close>) is an \<open>option\<close>, with \<open>None\<close> for
  \<open>undefined\<close>. Strings are lists of characters and \<open>!==\<close> on two strings (or on a
  string and \<open>undefined\<close>) is disequality of the values.
\<close>

record SchemaColumn =
  c_name :: string
  c_type :: string
  c_nullable :: bool
  c_primaryKey :: bool
  c_defaultValue :: "string option"
  c_references :: "(string \<times> string) option"

record IndexDefinition =
  i_name :: string
  i_columns :: "string list"
  i_unique :: bool

datatype ConstraintType = PRIMARY_KEY | FOREIGN_KEY | UNIQUE | CHECK

record ConstraintDefinition =
  k_name :: string
  k_type :: ConstraintType
  k_columns :: "string list"

record SchemaTable =
  t_name :: string
  t_columns :: "SchemaColumn list"
  t_indexes :: "IndexDefinition list"
  t_constraints :: "ConstraintDefinition list"

record ParsedSchema =
  s_tables :: "SchemaTable list"
  s_version :: string
  s_timestamp :: nat

section \<open>The JavaScript Map\<close>

text \<open>
  \<open>new Map(entries)\<close> inserts the entries from left to right. A key that is already
  present keeps its position and takes the new value; a new key goes to the end.
  Iteration (\<open>for (const [k, v] of m)\<close>) follows that order. The model is the list
  of entries in iteration order.
\<close>

type_synonym ('k, 'v) js_map = "('k \<times> 'v) list"

fun map_set :: "('k, 'v) js_map \<Rightarrow> 'k \<Rightarrow> 'v \<Rightarrow> ('k, 'v) js_map" where
  "map_set [] k v = [(k, v)]"
| "map_set ((k', v') # m) k v =
     (if k' = k then (k, v) # m else (k', v') # map_set m k v)"

definition new_Map :: "('k \<times> 'v) list \<Rightarrow> ('k, 'v) js_map" where
  "new_Map entries = foldl (\<lambda>m (k, v). map_set m k v) [] entries"

definition map_get :: "('k, 'v) js_map \<Rightarrow> 'k \<Rightarrow> 'v option" where
  "map_get m k = map_of m k"

definition map_has :: "('k, 'v) js_map \<Rightarrow> 'k \<Rightarrow> bool" where
  "map_has m k = (map_of m k \<noteq> None)"

section \<open>The differ (src/unnamed/part 002)\<close>

record ColumnDiff =
  columnName :: string
  oldType :: "string option"
  newType :: string
  oldNullable :: "bool option"
  newNullable :: bool
  defaultChanged :: "bool option"

record TableDiff =
  tableName :: string
  newColumns :: "SchemaColumn list"
  droppedColumns :: "SchemaColumn list"
  modifiedColumns :: "ColumnDiff list"

record SchemaDiff =
  newTables :: "SchemaTable list"
  droppedTables :: "SchemaTable list"
  modifiedTables :: "TableDiff list"
  warnings :: "string list"

text \<open>
  The body of the third loop of \<open>diffTables\<close>: nothing for a column that the current
  table lacks (\<open>continue\<close>), otherwise the record \<open>changes\<close>, pushed only when the
  type, the nullability or the default value differ.
\<close>

definition column_changes ::
  "(string, SchemaColumn) js_map \<Rightarrow> string \<Rightarrow> SchemaColumn \<Rightarrow> ColumnDiff list" where
  "column_changes currentColMap colName desiredCol =
     (case map_get currentColMap colName of
        None \<Rightarrow> []
      | Some currentCol \<Rightarrow>
          if c_type currentCol \<noteq> c_type desiredCol \<or>
             c_nullable currentCol \<noteq> c_nullable desiredCol \<or>
             c_defaultValue currentCol \<noteq> c_defaultValue desiredCol
          then [\<lparr>columnName = colName,
                 oldType = Some (c_type currentCol),
                 newType = c_type desiredCol,
                 oldNullable = Some (c_nullable currentCol),
                 newNullable = c_nullable desiredCol,
                 defaultChanged =
                   Some (c_defaultValue currentCol \<noteq> c_defaultValue desiredCol)\<rparr>]
          else [])"

definition diffTables :: "SchemaTable \<Rightarrow> SchemaTable \<Rightarrow> TableDiff" where
  "diffTables current desired =
     (let currentColMap = new_Map (map (\<lambda>c. (c_name c, c)) (t_columns current));
          desiredColMap = new_Map (map (\<lambda>c. (c_name c, c)) (t_columns desired))
      in \<lparr>tableName = t_name current,
          newColumns =
            map snd (filter (\<lambda>(colName, col). \<not> map_has currentColMap colName) desiredColMap),
          droppedColumns =
            map snd (filter (\<lambda>(colName, col). \<not> map_has desiredColMap colName) currentColMap),
          modifiedColumns =
            concat (map (\<lambda>(colName, desiredCol).
                           column_changes currentColMap colName desiredCol) desiredColMap)\<rparr>)"

text \<open>\<open>Array.prototype.join\<close> with a separator.\<close>

fun join_with :: "string \<Rightarrow> string list \<Rightarrow> string" where
  "join_with sep [] = []"
| "join_with sep [x] = x"
| "join_with sep (x # y # ys) = x @ sep @ join_with sep (y # ys)"

text \<open>
  The body of the third loop of \<open>diffSchemas\<close> for one entry of the desired map: the
  table diffs it pushes and the warnings it pushes.
\<close>

definition table_changes ::
  "(string, SchemaTable) js_map \<Rightarrow> string \<Rightarrow> SchemaTable \<Rightarrow> TableDiff list \<times> string list" where
  "table_changes currentTableMap tblName desiredTable =
     (case map_get currentTableMap tblName of
        None \<Rightarrow> ([], [])
      | Some currentTable \<Rightarrow>
          (let tableDiff = diffTables currentTable desiredTable in
           if length (newColumns tableDiff) > 0 \<or>
              length (droppedColumns tableDiff) > 0 \<or>
              length (modifiedColumns tableDiff) > 0
           then ([tableDiff],
                 if length (droppedColumns tableDiff) > 0
                 then [''Table \"'' @ tblName @ ''\" will lose columns: '' @
                       join_with '', '' (map c_name (droppedColumns tableDiff))]
                 else [])
           else ([], [])))"

definition diffSchemas :: "ParsedSchema \<Rightarrow> ParsedSchema \<Rightarrow> SchemaDiff" where
  "diffSchemas current desired =
     (let currentTableMap = new_Map (map (\<lambda>t. (t_name t, t)) (s_tables current));
          desiredTableMap = new_Map (map (\<lambda>t. (t_name t, t)) (s_tables desired));
          added = filter (\<lambda>(tblName, table). \<not> map_has currentTableMap tblName)
                    desiredTableMap;
          dropped = filter (\<lambda>(tblName, table). \<not> map_has desiredTableMap tblName)
                      currentTableMap;
          changed = map (\<lambda>(tblName, desiredTable).
                           table_changes currentTableMap tblName desiredTable)
                      desiredTableMap
      in \<lparr>newTables = map snd added,
          droppedTables = map snd dropped,
          modifiedTables = concat (map fst changed),
          warnings =
            map (\<lambda>(tblName, table).
                   ''Table \"'' @ tblName @ ''\" will be DROPPED.  This is destructive! '')
              dropped
            @ concat (map snd changed)\<rparr>)"

section \<open>Statement splitting (parseSchema, src/unnamed/part 001)\<close>

text \<open>
  Strings are ASCII texts. \<open>String.prototype.split\<close> with a one-character separator
  cuts at every occurrence of the separator and keeps empty pieces; the empty string
  gives one empty piece.
\<close>

fun split_on :: "char \<Rightarrow> string \<Rightarrow> string list" where
  "split_on sep [] = [[]]"
| "split_on sep (c # cs) =
     (if c = sep then [] # split_on sep cs
      else (case split_on sep cs of
              [] \<Rightarrow> [[c]]
            | p # ps \<Rightarrow> (c # p) # ps))"

text \<open>
  The white space and line terminators that \<open>trim\<close> removes, among the ASCII
  characters: tab, line feed, vertical tab, form feed, carriage return and space. The
  other white space of Unicode that \<open>trim\<close> removes (U+00A0, U+FEFF, U+2028 and more) lies
  outside the ASCII texts that are modelled.
\<close>

definition is_space :: "char \<Rightarrow> bool" where
  "is_space c = (c \<in> set [CHR 0x09, CHR 0x0A, CHR 0x0B, CHR 0x0C, CHR 0x0D, CHR 0x20])"

definition trim :: "string \<Rightarrow> string" where
  "trim s = rev (dropWhile is_space (rev (dropWhile is_space s)))"

definition startsWith :: "string \<Rightarrow> string \<Rightarrow> bool" where
  "startsWith s p = (take (length p) s = p)"

text \<open>
  The constant \<open>statements\<close> of \<open>parseSchema\<close>:
  \<open>sqlContent.split(';').map(stmt => stmt.trim()).filter(stmt => stmt.length > 0 &&
  !stmt.startsWith('--'))\<close>.
\<close>

definition parseSchema_statements :: "string \<Rightarrow> string list" where
  "parseSchema_statements sqlContent =
     filter (\<lambda>stmt. length stmt > 0 \<and> \<not> startsWith stmt ''--'')
       (map trim (split_on CHR '';'' sqlContent))"

section \<open>Migration records and the loader (src/core/migration/loader.ts)\<close>

record Migration =
  m_name :: string
  m_version :: string
  m_content :: string
  m_checksum :: string
  m_path :: string

text \<open>
  The migrations directory as \<open>readdir\<close> and \<open>readFile\<close> see it: the files in it, each
  with its name and content, or \<open>None\<close> when the directory cannot be read
  (\<open>readdir\<close> rejects).
\<close>

type_synonym directory = "(string \<times> string) list option"

definition is_digit :: "char \<Rightarrow> bool" where
  "is_digit c = (48 \<le> (of_char c :: nat) \<and> (of_char c :: nat) \<le> 57)"

text \<open>
  \<open>parseInt\<close> on a string of decimal digits, read from the left. Versions are natural
  numbers; the rounding of JavaScript numbers above \<open>2^53\<close> is not modelled.
\<close>

definition parseInt_digits :: "string \<Rightarrow> nat" where
  "parseInt_digits ds = foldl (\<lambda>n c. 10 * n + (of_char c - 48)) (0::nat) ds"

text \<open>\<open>parseInt(f.match(/^(\d+)/)?.[1] || '0')\<close>: the leading digits, or 0 without any.\<close>

definition leading_version :: "string \<Rightarrow> nat" where
  "leading_version f =
     (let ds = takeWhile is_digit f in if ds = [] then parseInt_digits ''0'' else parseInt_digits ds)"

text \<open>
  \<open>getNextVersionNumber\<close>. No version is \<open>NaN\<close>, so the filter keeps them all;
  \<open>Math.max(0, ...versions) || 0\<close> is the maximum, at least 0. A directory that cannot
  be read gives 1 (the \<open>catch\<close>). The model is for directories within the engine's
  limit on the arguments of a call (beyond it the spread throws and the \<open>catch\<close> gives 1)
  and for versions below \<open>2^53\<close>.
\<close>

definition getNextVersionNumber :: "directory \<Rightarrow> nat" where
  "getNextVersionNumber dir =
     (case dir of
        None \<Rightarrow> 1
      | Some files \<Rightarrow>
          (let versions = map (\<lambda>f. leading_version (fst f)) files
           in foldl max 0 versions + 1))"

text \<open>\<open>String(n)\<close> for a natural number: its decimal digits.\<close>

fun string_of_nat :: "nat \<Rightarrow> string" where
  "string_of_nat n =
     (if n < 10 then [char_of (48 + n)]
      else string_of_nat (n div 10) @ [char_of (48 + n mod 10)])"

text \<open>\<open>s.replace(/\.sql$/, '')\<close>: the string without a final \<open>.sql\<close>, if it has one.\<close>

definition strip_sql_suffix :: "string \<Rightarrow> string" where
  "strip_sql_suffix s =
     (if length s \<ge> 4 \<and> drop (length s - 4) s = ''.sql'' then take (length s - 4) s else s)"

text \<open>
  \<open>MigrationLoader.create\<close>. The hash function of \<open>crypto\<close> and \<open>path.join\<close> are
  parameters. The function returns the record and the directory as it leaves it; it
  calls nothing that writes, so that is the directory it was given. The template
  literal of the file name reads \<open>${versionNumber}_${name}. sql\<close> in the source, with a
  blank after the dot.
\<close>

definition create ::
  "(string \<Rightarrow> string) \<Rightarrow> (string \<Rightarrow> string \<Rightarrow> string) \<Rightarrow> string \<Rightarrow> directory \<Rightarrow>
   string \<Rightarrow> string \<Rightarrow> Migration \<times> directory" where
  "create sha256 join_path migrationsDir dir name content =
     (let versionNumber = getNextVersionNumber dir;
          fileName = string_of_nat versionNumber @ ''_'' @ name @ ''. sql'';
          filePath = join_path migrationsDir fileName;
          checksum = sha256 content
      in (\<lparr>m_name = strip_sql_suffix fileName,
           m_version = string_of_nat versionNumber,
           m_content = content,
           m_checksum = checksum,
           m_path = filePath\<rparr>, dir))"

text \<open>Whether the directory holds a file whose joined path is the given one.\<close>

definition file_exists ::
  "(string \<Rightarrow> string \<Rightarrow> string) \<Rightarrow> string \<Rightarrow> directory \<Rightarrow> string \<Rightarrow> bool" where
  "file_exists join_path migrationsDir dir p =
     (case dir of
        None \<Rightarrow> False
      | Some files \<Rightarrow> list_ex (\<lambda>f. join_path migrationsDir (fst f) = p) files)"

section \<open>The database as the executor sees it\<close>

text \<open>
  The executor talks to PostgreSQL through one client and \<open>client.query\<close>. The model
  of the server keeps what the executor's statements read and write:
  \<^item> the table \<open>atlas_migrations\<close>, \<open>None\<close> before it is created, otherwise its rows in
    the order of \<open>applied_at\<close> (the time of insertion), each with its name and checksum;
  \<^item> the rest of the database, of a type \<open>'s\<close> that the model leaves open.
  How the server judges a migration text is a parameter. \<open>prepare\<close> is the answer to
  \<open>PREPARE <id> AS <text>\<close>, sent as one query: an error message, or the database after
  it (the statements that follow the first one in the text are run by that query, so
  the database may change). \<open>run_ddl\<close> is the answer to the text itself: an error
  message, or the database after it. A migration text acts on the rest of the database
  only: it holds no transaction control and does not touch \<open>atlas_migrations\<close>.
\<close>

record HistoryRow =
  h_name :: string
  h_checksum :: string

record 's database =
  history :: "HistoryRow list option"
  schema :: 's

record 's server =
  prepare :: "string \<Rightarrow> 's \<Rightarrow> string + 's"
  run_ddl :: "string \<Rightarrow> 's \<Rightarrow> string + 's"

text \<open>
  The statements the executor sends, one constructor for each call of \<open>client.query\<close>
  in executor.ts:
  \<^item> \<open>CreateHistoryTable\<close>: \<open>CREATE TABLE IF NOT EXISTS atlas_migrations (...)\<close>;
  \<^item> \<open>SelectApplied\<close>: \<open>SELECT name, checksum, applied_at FROM atlas_migrations ORDER BY
    applied_at ASC\<close>;
  \<^item> \<open>Begin\<close>, \<open>Commit\<close>, \<open>Rollback\<close>: \<open>BEGIN\<close>, \<open>COMMIT\<close>, \<open>ROLLBACK\<close>;
  \<^item> \<open>Prepare sql\<close>: \<open>PREPARE <id> AS <sql>\<close>, and \<open>Deallocate\<close>: \<open>DEALLOCATE <id>\<close>,
    with the identifier that \<open>validateSQL\<close> draws from the clock and a random number;
  \<^item> \<open>Run sql\<close>: the migration text itself;
  \<^item> \<open>InsertHistory name checksum\<close>: \<open>INSERT INTO atlas_migrations (name, checksum,
    applied_at) VALUES ($1, $2, NOW())\<close>;
  \<^item> \<open>SelectLast count\<close>: \<open>SELECT name FROM atlas_migrations ORDER BY applied_at DESC
    LIMIT $1\<close>;
  \<^item> \<open>DeleteHistory name\<close>: \<open>DELETE FROM atlas_migrations WHERE name = $1\<close>.
\<close>

datatype stmt =
    CreateHistoryTable
  | SelectApplied
  | Begin
  | Prepare string
  | Deallocate
  | Run string
  | InsertHistory string string
  | Commit
  | Rollback
  | SelectLast int
  | DeleteHistory string

definition no_table :: string where
  "no_table = ''relation \"atlas_migrations\" does not exist''"

text \<open>
  The history table is declared with \<open>name VARCHAR(255) NOT NULL UNIQUE\<close> and
  \<open>checksum VARCHAR(64) NOT NULL\<close>, so an insert fails on a name that is already there
  and on a value that is too long. A new row is the latest by \<open>applied_at\<close>.
\<close>

definition insert_row :: "string \<Rightarrow> string \<Rightarrow> HistoryRow list \<Rightarrow> string + HistoryRow list" where
  "insert_row name checksum rows =
     (if name \<in> set (map h_name rows)
      then Inl ''duplicate key value violates unique constraint''
      else if length name > 255
      then Inl ''value too long for type character varying(255)''
      else if length checksum > 64
      then Inl ''value too long for type character varying(64)''
      else Inr (rows @ [\<lparr>h_name = name, h_checksum = checksum\<rparr>]))"

text \<open>
  What a statement does to a database state once the server has received it, and the
  rows it returns. \<open>LIMIT\<close> refuses a negative count.
\<close>

fun effect ::
  "'s server \<Rightarrow> stmt \<Rightarrow> 's database \<Rightarrow> string + ('s database \<times> HistoryRow list)" where
  "effect srv CreateHistoryTable d =
     (case history d of
        None \<Rightarrow> Inr (d\<lparr>history := Some []\<rparr>, [])
      | Some rows \<Rightarrow> Inr (d, []))"
| "effect srv SelectApplied d =
     (case history d of None \<Rightarrow> Inl no_table | Some rows \<Rightarrow> Inr (d, rows))"
| "effect srv (Prepare sql) d =
     (case prepare srv sql (schema d) of
        Inl e \<Rightarrow> Inl e
      | Inr s' \<Rightarrow> Inr (d\<lparr>schema := s'\<rparr>, []))"
| "effect srv Deallocate d = Inr (d, [])"
| "effect srv (Run sql) d =
     (case run_ddl srv sql (schema d) of
        Inl e \<Rightarrow> Inl e
      | Inr s' \<Rightarrow> Inr (d\<lparr>schema := s'\<rparr>, []))"
| "effect srv (InsertHistory name checksum) d =
     (case history d of
        None \<Rightarrow> Inl no_table
      | Some rows \<Rightarrow>
          (case insert_row name checksum rows of
             Inl e \<Rightarrow> Inl e
           | Inr rows' \<Rightarrow> Inr (d\<lparr>history := Some rows'\<rparr>, [])))"
| "effect srv (SelectLast count) d =
     (case history d of
        None \<Rightarrow> Inl no_table
      | Some rows \<Rightarrow>
          if count < 0 then Inl ''LIMIT must not be negative''
          else Inr (d, take (nat count) (rev rows)))"
| "effect srv (DeleteHistory name) d =
     (case history d of
        None \<Rightarrow> Inl no_table
      | Some rows \<Rightarrow> Inr (d\<lparr>history := Some (filter (\<lambda>r. h_name r \<noteq> name) rows)\<rparr>, []))"
| "effect srv Begin d = Inr (d, [])"
| "effect srv Commit d = Inr (d, [])"
| "effect srv Rollback d = Inr (d, [])"

text \<open>
  The client: the committed database, the working copy of the open transaction if
  there is one, and the statements sent so far. A client that \<open>pool.connect\<close> hands out
  has no open transaction (\<open>txn = None\<close>).
\<close>

record 's client =
  committed :: "'s database"
  txn :: "'s database option"
  log :: "stmt list"

type_synonym ('s, 'a) io = "'s client \<Rightarrow> (string + 'a) \<times> 's client"

text \<open>
  A statement that reaches the server. \<open>BEGIN\<close> opens a transaction on a copy of the
  committed state, \<open>COMMIT\<close> makes the copy the committed state, \<open>ROLLBACK\<close> drops it.
  Any other statement acts on the working copy inside a transaction and on the
  committed state outside one; a statement that the server refuses changes nothing.
\<close>

fun deliver :: "'s server \<Rightarrow> stmt \<Rightarrow> ('s, HistoryRow list) io" where
  "deliver srv Begin c =
     (Inr [], (case txn c of
                 None \<Rightarrow> c\<lparr>txn := Some (committed c), log := log c @ [Begin]\<rparr>
               | Some w \<Rightarrow> c\<lparr>log := log c @ [Begin]\<rparr>))"
| "deliver srv Commit c =
     (Inr [], (case txn c of
                 None \<Rightarrow> c\<lparr>log := log c @ [Commit]\<rparr>
               | Some w \<Rightarrow> c\<lparr>committed := w, txn := None, log := log c @ [Commit]\<rparr>))"
| "deliver srv Rollback c = (Inr [], c\<lparr>txn := None, log := log c @ [Rollback]\<rparr>)"
| "deliver srv s c =
     (case txn c of
        None \<Rightarrow>
          (case effect srv s (committed c) of
             Inl e \<Rightarrow> (Inl e, c\<lparr>log := log c @ [s]\<rparr>)
           | Inr (d, rows) \<Rightarrow> (Inr rows, c\<lparr>committed := d, log := log c @ [s]\<rparr>))
      | Some w \<Rightarrow>
          (case effect srv s w of
             Inl e \<Rightarrow> (Inl e, c\<lparr>log := log c @ [s]\<rparr>)
           | Inr (d, rows) \<Rightarrow> (Inr rows, c\<lparr>txn := Some d, log := log c @ [s]\<rparr>)))"

text \<open>
  The connection. Any call of \<open>client.query\<close> may reject for a reason of its own (the
  connection is lost, the server shuts down, a timeout): \<open>link n\<close> is the error of the
  statement sent as number \<open>n\<close> over the client, counted on the log, or \<open>None\<close> when it
  reaches the server. A statement that does not reach the server changes nothing.
  \<open>reliable\<close> is the connection on which every statement reaches the server.
\<close>

type_synonym link = "nat \<Rightarrow> string option"

definition reliable :: link where
  "reliable = (\<lambda>n. None)"

definition query :: "link \<Rightarrow> 's server \<Rightarrow> stmt \<Rightarrow> ('s, HistoryRow list) io" where
  "query link srv s c =
     (case link (length (log c)) of
        Some e \<Rightarrow> (Inl e, c\<lparr>log := log c @ [s]\<rparr>)
      | None \<Rightarrow> deliver srv s c)"

text \<open>\<open>await\<close> in sequence: a rejected promise skips what follows.\<close>

definition and_then :: "('s, 'a) io \<Rightarrow> ('a \<Rightarrow> ('s, 'b) io) \<Rightarrow> ('s, 'b) io" where
  "and_then f g c = (case f c of (Inl e, c') \<Rightarrow> (Inl e, c') | (Inr x, c') \<Rightarrow> g x c')"

section \<open>The executor (src/core/migration/executor.ts)\<close>

text \<open>
  \<open>ExecutionResult\<close> without \<open>duration\<close>: wall clock time is not modelled. The callback
  \<open>onMigration\<close> of the options is a function from the migration name to the message
  of the error it throws, \<open>None\<close> when it returns (or when no callback is given).
\<close>

record ExecutionResult =
  success :: bool
  migrationsRun :: "string list"
  error :: "string option"

record Options =
  dryRun :: bool
  force :: bool
  onMigration :: "string \<Rightarrow> string option"

definition ensureMigrationTable :: "link \<Rightarrow> 's server \<Rightarrow> ('s, HistoryRow list) io" where
  "ensureMigrationTable link srv = query link srv CreateHistoryTable"

definition getAppliedMigrations :: "link \<Rightarrow> 's server \<Rightarrow> ('s, HistoryRow list) io" where
  "getAppliedMigrations link srv = query link srv SelectApplied"

definition validateSQL :: "link \<Rightarrow> 's server \<Rightarrow> string \<Rightarrow> ('s, HistoryRow list) io" where
  "validateSQL link srv sql c =
     (case and_then (query link srv (Prepare sql)) (\<lambda>_. query link srv Deallocate) c of
        (Inl e, c') \<Rightarrow> (Inl (''Invalid SQL:  '' @ e), c')
      | (Inr r, c') \<Rightarrow> (Inr r, c'))"

text \<open>The \<open>try\<close> block of the loop body of \<open>execute\<close>, up to \<open>COMMIT\<close>.\<close>

definition apply_steps :: "link \<Rightarrow> 's server \<Rightarrow> Migration \<Rightarrow> ('s, HistoryRow list) io" where
  "apply_steps link srv migration =
     and_then (query link srv Begin) (\<lambda>_.
     and_then (validateSQL link srv (m_content migration)) (\<lambda>_.
     and_then (query link srv (Run (m_content migration))) (\<lambda>_.
     and_then (query link srv (InsertHistory (m_name migration) (m_checksum migration))) (\<lambda>_.
     query link srv Commit))))"

text \<open>
  The \<open>catch\<close> of the loop body, and the outer \<open>catch\<close> that its \<open>throw\<close> reaches: send
  \<open>ROLLBACK\<close>; if that rejects, its error is the one returned, otherwise the error is
  \<open>Failed to apply\<close> with the name of the migration and the message caught.
\<close>

definition rollback_and_fail ::
  "link \<Rightarrow> 's server \<Rightarrow> Migration \<Rightarrow> string \<Rightarrow> string list \<Rightarrow> 's client \<Rightarrow>
   ExecutionResult \<times> 's client" where
  "rollback_and_fail link srv migration e run c =
     (case query link srv Rollback c of
        (Inl e', c') \<Rightarrow> (\<lparr>success = False, migrationsRun = run, error = Some e'\<rparr>, c')
      | (Inr _, c') \<Rightarrow>
          (\<lparr>success = False, migrationsRun = run,
            error = Some (''Failed to apply '' @ m_name migration @ '':  '' @ e)\<rparr>, c'))"

text \<open>
  The loop over the pending migrations with the accumulator \<open>migrationsRun\<close>. After
  \<open>COMMIT\<close> the name is pushed and the callback is called, still inside the \<open>try\<close>: an
  error of the callback goes to the same \<open>catch\<close>.
\<close>

fun apply_pending ::
  "link \<Rightarrow> 's server \<Rightarrow> Options \<Rightarrow> Migration list \<Rightarrow> string list \<Rightarrow> 's client \<Rightarrow>
   ExecutionResult \<times> 's client" where
  "apply_pending link srv options [] run c =
     (\<lparr>success = True, migrationsRun = run, error = None\<rparr>, c)"
| "apply_pending link srv options (migration # rest) run c =
     (case apply_steps link srv migration c of
        (Inl e, c') \<Rightarrow> rollback_and_fail link srv migration e run c'
      | (Inr _, c') \<Rightarrow>
          (case onMigration options (m_name migration) of
             Some e \<Rightarrow> rollback_and_fail link srv migration e (run @ [m_name migration]) c'
           | None \<Rightarrow> apply_pending link srv options rest (run @ [m_name migration]) c'))"

definition pending_of :: "HistoryRow list \<Rightarrow> Migration list \<Rightarrow> Migration list" where
  "pending_of applied migrations =
     (let appliedSet = set (map h_name applied)
      in filter (\<lambda>m. m_name m \<notin> appliedSet) migrations)"

text \<open>
  \<open>MigrationExecutor.execute\<close> and \<open>MigrationExecutor.rollback\<close> over a connection. The
  names \<open>execute\<close> and \<open>rollback\<close> stand for the two on the reliable connection.
\<close>

definition execute_on ::
  "link \<Rightarrow> 's server \<Rightarrow> Migration list \<Rightarrow> Options \<Rightarrow> 's client \<Rightarrow>
   ExecutionResult \<times> 's client" where
  "execute_on link srv migrations options c =
     (case ensureMigrationTable link srv c of
        (Inl e, c1) \<Rightarrow> (\<lparr>success = False, migrationsRun = [], error = Some e\<rparr>, c1)
      | (Inr _, c1) \<Rightarrow>
          (case getAppliedMigrations link srv c1 of
             (Inl e, c2) \<Rightarrow> (\<lparr>success = False, migrationsRun = [], error = Some e\<rparr>, c2)
           | (Inr applied, c2) \<Rightarrow>
               (let pending = pending_of applied migrations
                in if length pending = 0
                   then (\<lparr>success = True, migrationsRun = [], error = None\<rparr>, c2)
                   else if dryRun options
                   then (\<lparr>success = True, migrationsRun = map m_name pending, error = None\<rparr>,
                         c2)
                   else apply_pending link srv options pending [] c2)))"

abbreviation execute ::
  "'s server \<Rightarrow> Migration list \<Rightarrow> Options \<Rightarrow> 's client \<Rightarrow> ExecutionResult \<times> 's client" where
  "execute \<equiv> execute_on reliable"

text \<open>The loop of \<open>rollback\<close>: one \<open>DELETE\<close> for each name.\<close>

fun delete_rows :: "link \<Rightarrow> 's server \<Rightarrow> string list \<Rightarrow> ('s, unit) io" where
  "delete_rows link srv [] c = (Inr (), c)"
| "delete_rows link srv (migrationName # rest) c =
     (case query link srv (DeleteHistory migrationName) c of
        (Inl e, c') \<Rightarrow> (Inl e, c')
      | (Inr _, c') \<Rightarrow> delete_rows link srv rest c')"

definition rollback_on ::
  "link \<Rightarrow> 's server \<Rightarrow> int \<Rightarrow> 's client \<Rightarrow> ExecutionResult \<times> 's client" where
  "rollback_on link srv count c =
     (case ensureMigrationTable link srv c of
        (Inl e, c1) \<Rightarrow> (\<lparr>success = False, migrationsRun = [], error = Some e\<rparr>, c1)
      | (Inr _, c1) \<Rightarrow>
          (case query link srv (SelectLast count) c1 of
             (Inl e, c2) \<Rightarrow> (\<lparr>success = False, migrationsRun = [], error = Some e\<rparr>, c2)
           | (Inr rows, c2) \<Rightarrow>
               (let toRollback = rev (map h_name rows)
                in if length toRollback = 0
                   then (\<lparr>success = True, migrationsRun = [], error = None\<rparr>, c2)
                   else (case delete_rows link srv toRollback c2 of
                           (Inl e, c3) \<Rightarrow>
                             (\<lparr>success = False, migrationsRun = [], error = Some e\<rparr>, c3)
                         | (Inr _, c3) \<Rightarrow>
                             (\<lparr>success = True, migrationsRun = toRollback, error = None\<rparr>,
                              c3)))))"

abbreviation rollback :: "'s server \<Rightarrow> int \<Rightarrow> 's client \<Rightarrow> ExecutionResult \<times> 's client" where
  "rollback \<equiv> rollback_on reliable"

section \<open>Notions used in the statements\<close>

text \<open>
  The rows of the history table, none if the table is not there; the database after the
  bootstrap statement; the history row that \<open>execute\<close> inserts for a migration; the
  statements of one committed migration; and the database that a list of migration
  texts leaves, each one prepared and then run on the result of the one before.
\<close>

definition stored_rows :: "'s database \<Rightarrow> HistoryRow list" where
  "stored_rows d = (case history d of None \<Rightarrow> [] | Some rows \<Rightarrow> rows)"

definition bootstrapped :: "'s database \<Rightarrow> 's database" where
  "bootstrapped d = (case history d of None \<Rightarrow> d\<lparr>history := Some []\<rparr> | Some rows \<Rightarrow> d)"


definition transaction_of :: "Migration \<Rightarrow> stmt list" where
  "transaction_of m =
     [Begin, Prepare (m_content m), Deallocate, Run (m_content m),
      InsertHistory (m_name m) (m_checksum m), Commit]"


text \<open>The names that \<open>rollback\<close> takes from its \<open>SELECT\<close>, in the order it deletes them.\<close>

definition last_names :: "int \<Rightarrow> HistoryRow list \<Rightarrow> string list" where
  "last_names count rows = rev (map h_name (take (nat count) (rev rows)))"

text \<open>The statements a call has sent: the log after it without the log before it.\<close>

definition sent :: "'s client \<Rightarrow> 's client \<Rightarrow> stmt list" where
  "sent c c' = drop (length (log c)) (log c')"

text \<open>
  The answer to a statement sent as number \<open>n\<close> on the database \<open>d\<close>: the error of the
  connection, the error of the server, or the database after the statement.
\<close>

definition answer :: "link \<Rightarrow> 's server \<Rightarrow> stmt \<Rightarrow> 's database \<Rightarrow> nat \<Rightarrow> string + 's database" where
  "answer link srv s d n =
     (case link n of
        Some e \<Rightarrow> Inl e
      | None \<Rightarrow> (case effect srv s d of Inl e \<Rightarrow> Inl e | Inr (d', rows) \<Rightarrow> Inr d'))"

text \<open>
  A list of statements sent one after the other from number \<open>n\<close> on, each on the
  database the one before left: the position in the list and the error of the first
  one that fails, or the database after the last.
\<close>

fun first_failure ::
  "link \<Rightarrow> 's server \<Rightarrow> stmt list \<Rightarrow> 's database \<Rightarrow> nat \<Rightarrow> (nat \<times> string) + 's database" where
  "first_failure link srv [] d n = Inr d"
| "first_failure link srv (s # ss) d n =
     (case answer link srv s d n of
        Inl e \<Rightarrow> Inl (0, e)
      | Inr d' \<Rightarrow>
          (case first_failure link srv ss d' (Suc n) of
             Inl (j, e) \<Rightarrow> Inl (Suc j, e)
           | Inr d'' \<Rightarrow> Inr d''))"

text \<open>
  The message that \<open>execute\<close> catches when statement number \<open>j\<close> of a migration's
  transaction fails with \<open>e\<close>: \<open>validateSQL\<close> wraps the errors of \<open>PREPARE\<close> (number 1) and
  \<open>DEALLOCATE\<close> (number 2).
\<close>

definition caught :: "nat \<Rightarrow> string \<Rightarrow> string" where
  "caught j e = (if j = 1 \<or> j = 2 then ''Invalid SQL:  '' @ e else e)"


text \<open>
  A step of the client sends only statements of the set \<open>A\<close>: the log after it is the
  log before it followed by statements of \<open>A\<close>.
\<close>

definition sends :: "stmt set \<Rightarrow> ('s client \<Rightarrow> 'a \<times> 's client) \<Rightarrow> bool" where
  "sends A f = (\<forall>c. \<exists>X. log (snd (f c)) = log c @ X \<and> set X \<subseteq> A)"


text \<open>
  Two databases agree on a set of names: they have the same schema, the history
  table is there in both or in neither, and each name of the set is the name of a
  history row in both or in neither.
\<close>

definition agree :: "string set \<Rightarrow> 's database \<Rightarrow> 's database \<Rightarrow> bool" where
  "agree N d1 d2 =
     (schema d1 = schema d2 \<and>
      (history d1 = None \<longleftrightarrow> history d2 = None) \<and>
      (\<forall>n \<in> N. n \<in> h_name ` set (stored_rows d1) \<longleftrightarrow> n \<in> h_name ` set (stored_rows d2)))"

section \<open>Example inputs\<close>

text \<open>Tables and columns on which the theorems about the differ are run.\<close>

definition id_column :: "bool \<Rightarrow> SchemaColumn" where
  "id_column pk =
     \<lparr>c_name = ''id'', c_type = ''INTEGER'', c_nullable = False, c_primaryKey = pk,
      c_defaultValue = None, c_references = None\<rparr>"

definition status_column :: "string \<Rightarrow> SchemaColumn" where
  "status_column ty =
     \<lparr>c_name = ''status'', c_type = ty, c_nullable = True, c_primaryKey = False,
      c_defaultValue = None, c_references = None\<rparr>"

definition users_table :: "SchemaColumn list \<Rightarrow> SchemaTable" where
  "users_table cols =
     \<lparr>t_name = ''users'', t_columns = cols, t_indexes = [], t_constraints = []\<rparr>"

definition users_schema :: ParsedSchema where
  "users_schema =
     \<lparr>s_tables = [users_table [id_column True, status_column ''TEXT'']],
      s_version = ''1.0'', s_timestamp = 0\<rparr>"

text \<open>
  A server, clients and migrations on which the theorems about the executor are run.
  The server keeps the migration texts it has run; it rejects the text \<open>SELEC 1\<close> at
  \<open>PREPARE\<close> and fails on \<open>DROP TABLE missing\<close>.
\<close>

definition demo_server :: "string list server" where
  "demo_server =
     \<lparr>prepare = (\<lambda>sql s. if sql = ''SELEC 1'' then Inl ''syntax error'' else Inr s),
      run_ddl = (\<lambda>sql s. if sql = ''DROP TABLE missing''
                          then Inl ''table does not exist'' else Inr (s @ [sql]))\<rparr>"

definition demo_client :: "HistoryRow list option \<Rightarrow> string list client" where
  "demo_client rows = \<lparr>committed = \<lparr>history = rows, schema = []\<rparr>, txn = None, log = []\<rparr>"

definition demo_migration :: "string \<Rightarrow> string \<Rightarrow> string \<Rightarrow> string \<Rightarrow> Migration" where
  "demo_migration v n sql cs =
     \<lparr>m_name = n, m_version = v, m_content = sql, m_checksum = cs,
      m_path = ''migrations/'' @ n @ ''.sql''\<rparr>"

definition demo_batch :: "Migration list" where
  "demo_batch =
     [demo_migration ''1'' ''1_a'' ''CREATE TABLE a (id INT)'' ''aa'',
      demo_migration ''2'' ''2_b'' ''DROP TABLE missing'' ''bb'',
      demo_migration ''3'' ''3_c'' ''CREATE TABLE c (id INT)'' ''cc'']"

definition demo_row :: "string \<Rightarrow> string \<Rightarrow> HistoryRow" where
  "demo_row n cs = \<lparr>h_name = n, h_checksum = cs\<rparr>"

definition demo_options :: "bool \<Rightarrow> Options" where
  "demo_options dry = \<lparr>dryRun = dry, force = False, onMigration = (\<lambda>name. None)\<rparr>"


definition lossy :: link where
  "lossy = (\<lambda>n. if n = 5 \<or> n = 6 then Some ''Connection terminated'' else None)"




section \<open>Facts about the Map model\<close>

lemma map_set_keys: "fst ` set (map_set m k v) = insert k (fst ` set m)"
proof (induction m)
  case Nil
  then show ?case by simp
next
  case (Cons e m)
  then show ?case by (cases e) auto
qed

lemma map_set_distinct: "distinct (map fst m) \<Longrightarrow> distinct (map fst (map_set m k v))"
proof (induction m)
  case Nil
  then show ?case by simp
next
  case (Cons e m)
  obtain k' v' where e: "e = (k', v')" by (cases e)
  have "k' \<noteq> k \<Longrightarrow> k' \<notin> fst ` set (map_set m k v)"
    using Cons.prems e by (simp add: map_set_keys)
  with Cons e show ?case by auto
qed

lemma map_set_lookup:
  "map_of (map_set m k v) k' = (if k' = k then Some v else map_of m k')"
  by (induction m) auto

lemma foldl_map_set_distinct:
  "distinct (map fst m) \<Longrightarrow>
   distinct (map fst (foldl (\<lambda>m (k, v). map_set m k v) m es))"
  by (induction es arbitrary: m) (auto simp: map_set_distinct)

lemma new_Map_distinct: "distinct (map fst (new_Map es))"
  by (simp add: new_Map_def foldl_map_set_distinct)

lemma new_Map_entry: "(k, v) \<in> set (new_Map es) \<Longrightarrow> map_of (new_Map es) k = Some v"
  using new_Map_distinct [of es] by simp

lemma foldl_map_set_lookup:
  "distinct (map fst es) \<Longrightarrow>
   map_of (foldl (\<lambda>m (k, v). map_set m k v) m es) k =
     (case map_of es k of None \<Rightarrow> map_of m k | Some v \<Rightarrow> Some v)"
proof (induction es arbitrary: m)
  case Nil
  then show ?case by simp
next
  case (Cons e es)
  obtain k' v' where e: "e = (k', v')" by (cases e)
  have "k' \<notin> fst ` set es" using Cons.prems e by simp
  then have "map_of es k' = None" by (simp add: map_of_eq_None_iff)
  with Cons e show ?case
    by (auto simp: map_set_lookup split: option.splits)
qed

lemma new_Map_lookup:
  "distinct (map fst es) \<Longrightarrow> map_of (new_Map es) k = map_of es k"
  by (simp add: new_Map_def foldl_map_set_lookup split: option.splits)

lemma new_Map_keyed_lookup:
  assumes "distinct (map f xs)" and "x \<in> set xs"
  shows "map_get (new_Map (map (\<lambda>c. (f c, c)) xs)) (f x) = Some x"
proof -
  have d: "distinct (map fst (map (\<lambda>c. (f c, c)) xs))"
    using assms(1) by (simp add: comp_def)
  have "(f x, x) \<in> set (map (\<lambda>c. (f c, c)) xs)" using assms(2) by auto
  with d have "map_of (map (\<lambda>c. (f c, c)) xs) (f x) = Some x" by simp
  with d show ?thesis by (simp add: map_get_def new_Map_lookup)
qed

lemma map_set_fresh: "k \<notin> fst ` set m \<Longrightarrow> map_set m k v = m @ [(k, v)]"
  by (induction m) auto

lemma foldl_map_set_fresh:
  "distinct (map fst (m @ es)) \<Longrightarrow> foldl (\<lambda>m (k, v). map_set m k v) m es = m @ es"
proof (induction es arbitrary: m)
  case Nil
  then show ?case by simp
next
  case (Cons e es)
  obtain k v where e: "e = (k, v)" by (cases e)
  have "k \<notin> fst ` set m" using Cons.prems e by auto
  then have step: "map_set m k v = m @ [(k, v)]" by (rule map_set_fresh)
  have "distinct (map fst ((m @ [(k, v)]) @ es))" using Cons.prems e by simp
  then have "foldl (\<lambda>m (k, v). map_set m k v) (m @ [(k, v)]) es = (m @ [(k, v)]) @ es"
    by (rule Cons.IH)
  with step e show ?case by simp
qed

lemma new_Map_distinct_keys: "distinct (map fst es) \<Longrightarrow> new_Map es = es"
  using foldl_map_set_fresh [of "[]" es] by (simp add: new_Map_def)

lemma new_Map_keyed:
  "distinct (map f xs) \<Longrightarrow> new_Map (map (\<lambda>c. (f c, c)) xs) = map (\<lambda>c. (f c, c)) xs"
  by (rule new_Map_distinct_keys) (simp add: comp_def)

lemma new_Map_no_missing:
  "filter (\<lambda>(k, v). \<not> map_has (new_Map es) k) (new_Map es) = []"
  by (auto simp: filter_empty_conv map_has_def dest: new_Map_entry)

section \<open>The differ on equal schemas\<close>

lemma column_changes_same:
  "(k, c) \<in> set (new_Map es) \<Longrightarrow> column_changes (new_Map es) k c = []"
  by (simp add: column_changes_def map_get_def new_Map_entry)

lemma diffTables_same:
  "diffTables t t =
     \<lparr>tableName = t_name t, newColumns = [], droppedColumns = [], modifiedColumns = []\<rparr>"
  by (auto simp: diffTables_def Let_def new_Map_no_missing column_changes_same)

lemma table_changes_same:
  "(k, t) \<in> set (new_Map es) \<Longrightarrow> table_changes (new_Map es) k t = ([], [])"
  by (simp add: table_changes_def map_get_def new_Map_entry diffTables_same)

text \<open>
  Claim C8. The diff of a schema with itself is empty: no new table, no dropped table,
  no modified table and no warning. It holds for every schema, valid or not, since both
  maps are built from the same list.
\<close>

theorem diff_identity:
  "diffSchemas S S =
     \<lparr>newTables = [], droppedTables = [], modifiedTables = [], warnings = []\<rparr>"
  by (auto simp: diffSchemas_def Let_def new_Map_no_missing table_changes_same)

theorem diff_identity_witness:
  "diffSchemas users_schema users_schema =
     \<lparr>newTables = [], droppedTables = [], modifiedTables = [], warnings = []\<rparr>"
  using diff_identity [of users_schema] by simp

section \<open>When the differ reports a column as modified\<close>

lemma column_changes_name: "x \<in> set (column_changes m k d) \<Longrightarrow> columnName x = k"
  by (auto simp: column_changes_def split: option.splits if_splits)

lemma column_changes_other:
  "k \<noteq> k' \<Longrightarrow> filter (\<lambda>x. columnName x = k') (column_changes m k d) = []"
  by (auto simp: filter_empty_conv dest: column_changes_name)

lemma column_changes_own:
  "filter (\<lambda>x. columnName x = k) (column_changes m k d) = column_changes m k d"
  by (auto simp: filter_id_conv dest: column_changes_name)

lemma modified_for_name:
  "distinct (map c_name ds) \<Longrightarrow> d \<in> set ds \<Longrightarrow>
   filter (\<lambda>x. columnName x = c_name d)
     (concat (map (\<lambda>dc. column_changes m (c_name dc) dc) ds)) =
   column_changes m (c_name d) d"
proof (induction ds)
  case Nil
  then show ?case by simp
next
  case (Cons a ds)
  show ?case
  proof (cases "a = d")
    case True
    have "c_name d \<notin> c_name ` set ds" using Cons.prems True by simp
    then have "\<forall>dc \<in> set ds. c_name dc \<noteq> c_name d" by (metis imageI)
    then have "filter (\<lambda>x. columnName x = c_name d)
        (concat (map (\<lambda>dc. column_changes m (c_name dc) dc) ds)) = []"
      by (auto simp: filter_empty_conv dest!: column_changes_name)
    with True show ?thesis by (simp add: column_changes_own)
  next
    case False
    then have "d \<in> set ds" and "c_name a \<noteq> c_name d" using Cons.prems by auto
    with Cons show ?thesis by (simp add: column_changes_other)
  qed
qed

text \<open>
  Claim C6, as the code has it. Take two tables whose column names are unique, a column
  \<open>c\<close> of the current one and a column \<open>d\<close> of the desired one with the same name. The
  modification records for that name are: one record if the type, the nullability or
  the default value text differ, none otherwise. The primary-key flag is not compared.
  The record holds the old and the new type, the old and the new nullability, and a
  flag saying whether the default changed; it holds neither default value and neither
  primary-key flag.
\<close>

theorem column_modified_iff:
  assumes "distinct (map c_name (t_columns current))"
    and "distinct (map c_name (t_columns desired))"
    and "c \<in> set (t_columns current)"
    and "d \<in> set (t_columns desired)"
    and "c_name c = c_name d"
  shows "filter (\<lambda>x. columnName x = c_name d) (modifiedColumns (diffTables current desired)) =
     (if c_type c \<noteq> c_type d \<or> c_nullable c \<noteq> c_nullable d \<or>
         c_defaultValue c \<noteq> c_defaultValue d
      then [\<lparr>columnName = c_name d,
             oldType = Some (c_type c), newType = c_type d,
             oldNullable = Some (c_nullable c), newNullable = c_nullable d,
             defaultChanged = Some (c_defaultValue c \<noteq> c_defaultValue d)\<rparr>]
      else [])"
proof -
  let ?C = "new_Map (map (\<lambda>c. (c_name c, c)) (t_columns current))"
  have get: "map_get ?C (c_name d) = Some c"
    using new_Map_keyed_lookup [OF assms(1) assms(3)] assms(5) by simp
  have "modifiedColumns (diffTables current desired) =
      concat (map (\<lambda>dc. column_changes ?C (c_name dc) dc) (t_columns desired))"
    by (simp add: diffTables_def Let_def new_Map_keyed [OF assms(2)] comp_def)
  then have "filter (\<lambda>x. columnName x = c_name d)
      (modifiedColumns (diffTables current desired)) = column_changes ?C (c_name d) d"
    using modified_for_name [OF assms(2) assms(4)] by simp
  with get show ?thesis by (simp add: column_changes_def)
qed

theorem column_modified_iff_witness:
  "distinct (map c_name (t_columns (users_table [id_column True, status_column ''TEXT'']))) \<and>
   distinct (map c_name
     (t_columns (users_table [id_column True, status_column ''VARCHAR(8)'']))) \<and>
   status_column ''TEXT'' \<in>
     set (t_columns (users_table [id_column True, status_column ''TEXT''])) \<and>
   status_column ''VARCHAR(8)'' \<in>
     set (t_columns (users_table [id_column True, status_column ''VARCHAR(8)''])) \<and>
   c_name (status_column ''TEXT'') = c_name (status_column ''VARCHAR(8)'') \<and>
   filter (\<lambda>x. columnName x = ''status'')
     (modifiedColumns (diffTables (users_table [id_column True, status_column ''TEXT''])
                                  (users_table [id_column True, status_column ''VARCHAR(8)'']))) =
   [\<lparr>columnName = ''status'', oldType = Some ''TEXT'', newType = ''VARCHAR(8)'',
     oldNullable = Some True, newNullable = True, defaultChanged = Some False\<rparr>]"
  using column_modified_iff [of "users_table [id_column True, status_column ''TEXT'']"
      "users_table [id_column True, status_column ''VARCHAR(8)'']"
      "status_column ''TEXT''" "status_column ''VARCHAR(8)''"]
  by (simp add: users_table_def id_column_def status_column_def)

text \<open>
  Claim C6 as the specification words it fails: two columns named \<open>id\<close> that differ in
  the primary-key flag, and in nothing else, give no modification record.
\<close>

theorem column_modified_iff_counterexample:
  "c_primaryKey (id_column False) \<noteq> c_primaryKey (id_column True) \<and>
   modifiedColumns (diffTables (users_table [id_column False]) (users_table [id_column True]))
     = []"
  by (simp add: diffTables_def id_column_def users_table_def new_Map_def column_changes_def
      map_get_def map_has_def Let_def)

section \<open>One statement\<close>

lemma query_reliable: "query reliable srv s c = deliver srv s c"
  by (simp add: query_def reliable_def)

lemma deliver_log: "log (snd (deliver srv s c)) = log c @ [s]"
  by (cases s) (simp_all split: option.splits sum.splits prod.splits)

lemma query_log: "log (snd (query link srv s c)) = log c @ [s]"
  by (simp add: query_def deliver_log split: option.splits)

lemma query_Begin:
  "txn c = None \<Longrightarrow>
   query link srv Begin c =
     (case answer link srv Begin (committed c) (length (log c)) of
        Inl e \<Rightarrow> (Inl e, c\<lparr>log := log c @ [Begin]\<rparr>)
      | Inr d \<Rightarrow> (Inr [], c\<lparr>txn := Some d, log := log c @ [Begin]\<rparr>))"
  by (simp add: query_def answer_def split: option.splits)

lemma query_Prepare:
  "txn c = Some w \<Longrightarrow>
   query link srv (Prepare sql) c =
     (case answer link srv (Prepare sql) w (length (log c)) of
        Inl e \<Rightarrow> (Inl e, c\<lparr>log := log c @ [Prepare sql]\<rparr>)
      | Inr d \<Rightarrow> (Inr [], c\<lparr>txn := Some d, log := log c @ [Prepare sql]\<rparr>))"
  by (simp add: query_def answer_def split: option.splits sum.splits)

lemma query_Deallocate:
  "txn c = Some w \<Longrightarrow>
   query link srv Deallocate c =
     (case answer link srv Deallocate w (length (log c)) of
        Inl e \<Rightarrow> (Inl e, c\<lparr>log := log c @ [Deallocate]\<rparr>)
      | Inr d \<Rightarrow> (Inr [], c\<lparr>txn := Some d, log := log c @ [Deallocate]\<rparr>))"
  by (simp add: query_def answer_def split: option.splits sum.splits)

lemma query_Run:
  "txn c = Some w \<Longrightarrow>
   query link srv (Run sql) c =
     (case answer link srv (Run sql) w (length (log c)) of
        Inl e \<Rightarrow> (Inl e, c\<lparr>log := log c @ [Run sql]\<rparr>)
      | Inr d \<Rightarrow> (Inr [], c\<lparr>txn := Some d, log := log c @ [Run sql]\<rparr>))"
  by (simp add: query_def answer_def split: option.splits sum.splits)

lemma query_InsertHistory:
  "txn c = Some w \<Longrightarrow>
   query link srv (InsertHistory n cs) c =
     (case answer link srv (InsertHistory n cs) w (length (log c)) of
        Inl e \<Rightarrow> (Inl e, c\<lparr>log := log c @ [InsertHistory n cs]\<rparr>)
      | Inr d \<Rightarrow> (Inr [], c\<lparr>txn := Some d, log := log c @ [InsertHistory n cs]\<rparr>))"
  by (simp add: query_def answer_def split: option.splits sum.splits)

lemma query_Commit:
  "txn c = Some w \<Longrightarrow>
   query link srv Commit c =
     (case answer link srv Commit w (length (log c)) of
        Inl e \<Rightarrow> (Inl e, c\<lparr>log := log c @ [Commit]\<rparr>)
      | Inr d \<Rightarrow> (Inr [], c\<lparr>committed := d, txn := None, log := log c @ [Commit]\<rparr>))"
  by (simp add: query_def answer_def split: option.splits)

lemma query_Rollback:
  "query link srv Rollback c =
     (case link (length (log c)) of
        Some e \<Rightarrow> (Inl e, c\<lparr>log := log c @ [Rollback]\<rparr>)
      | None \<Rightarrow> (Inr [], c\<lparr>txn := None, log := log c @ [Rollback]\<rparr>))"
  by (simp add: query_def split: option.splits)

section \<open>One migration\<close>

lemma apply_steps_law:
  assumes "txn c = None"
  shows "(case first_failure link srv (transaction_of m) (committed c) (length (log c)) of
            Inl (j, e) \<Rightarrow>
              fst (apply_steps link srv m c) = Inl (caught j e) \<and>
              committed (snd (apply_steps link srv m c)) = committed c \<and>
              log (snd (apply_steps link srv m c)) = log c @ take (Suc j) (transaction_of m) \<and>
              (j = 0 \<longrightarrow> txn (snd (apply_steps link srv m c)) = None)
          | Inr d' \<Rightarrow>
              apply_steps link srv m c =
                (Inr [], c\<lparr>committed := d', txn := None, log := log c @ transaction_of m\<rparr>))"
  using assms
  by (simp add: apply_steps_def and_then_def validateSQL_def transaction_of_def caught_def
      query_Begin query_Prepare query_Deallocate query_Run query_InsertHistory query_Commit
      split: sum.split)


lemma first_failure_bound:
  "first_failure link srv ss d n = Inl (j, e) \<Longrightarrow> j < length ss"
proof (induction ss arbitrary: d n j)
  case Nil
  then show ?case by simp
next
  case (Cons s ss)
  then show ?case by (auto split: sum.splits prod.splits)
qed

lemma rollback_and_fail_law:
  "rollback_and_fail link srv m e run c =
     (\<lparr>success = False, migrationsRun = run,
       error = Some (case link (length (log c)) of
                       Some e' \<Rightarrow> e'
                     | None \<Rightarrow> ''Failed to apply '' @ m_name m @ '':  '' @ e)\<rparr>,
      c\<lparr>txn := (case link (length (log c)) of Some e' \<Rightarrow> txn c | None \<Rightarrow> None),
        log := log c @ [Rollback]\<rparr>)"
  by (simp add: rollback_and_fail_def query_Rollback split: option.splits)

lemma transaction_length: "length (transaction_of m) = 6"
  by (simp add: transaction_of_def)

lemma loop_step_failure:
  assumes "txn c = None"
    and "first_failure link srv (transaction_of m) (committed c) (length (log c)) = Inl (j, e)"
  shows "fst (apply_pending link srv options (m # rest) run c) =
           \<lparr>success = False, migrationsRun = run,
            error = Some (case link (length (log c) + Suc j) of
                            Some e' \<Rightarrow> e'
                          | None \<Rightarrow> ''Failed to apply '' @ m_name m @ '':  '' @ caught j e)\<rparr>"
    and "committed (snd (apply_pending link srv options (m # rest) run c)) = committed c"
    and "log (snd (apply_pending link srv options (m # rest) run c)) =
           log c @ take (Suc j) (transaction_of m) @ [Rollback]"
    and "link (length (log c) + Suc j) = None \<Longrightarrow>
           txn (snd (apply_pending link srv options (m # rest) run c)) = None"
proof -
  obtain res c1 where st: "apply_steps link srv m c = (res, c1)"
    by (cases "apply_steps link srv m c")
  from apply_steps_law [OF assms(1), of link srv m] assms(2) st
  have res: "res = Inl (caught j e)" and co: "committed c1 = committed c"
    and lg: "log c1 = log c @ take (Suc j) (transaction_of m)"
    by simp_all
  have "j < 6" using first_failure_bound [OF assms(2)] by (simp add: transaction_length)
  then have len: "length (log c1) = length (log c) + Suc j"
    using lg by (simp add: transaction_length)
  have ap: "apply_pending link srv options (m # rest) run c =
      rollback_and_fail link srv m (caught j e) run c1"
    using st res by simp
  show "fst (apply_pending link srv options (m # rest) run c) =
           \<lparr>success = False, migrationsRun = run,
            error = Some (case link (length (log c) + Suc j) of
                            Some e' \<Rightarrow> e'
                          | None \<Rightarrow> ''Failed to apply '' @ m_name m @ '':  '' @ caught j e)\<rparr>"
    unfolding ap by (simp add: rollback_and_fail_law len)
  show "committed (snd (apply_pending link srv options (m # rest) run c)) = committed c"
    unfolding ap by (simp add: rollback_and_fail_law co)
  show "log (snd (apply_pending link srv options (m # rest) run c)) =
           log c @ take (Suc j) (transaction_of m) @ [Rollback]"
    unfolding ap by (simp add: rollback_and_fail_law lg)
  show "txn (snd (apply_pending link srv options (m # rest) run c)) = None"
    if "link (length (log c) + Suc j) = None"
    unfolding ap using that by (simp add: rollback_and_fail_law len)
qed

lemma client_txn_None:
  "txn c = None \<Longrightarrow> c\<lparr>committed := d, txn := None, log := l\<rparr> = c\<lparr>committed := d, log := l\<rparr>"
  by (cases c) simp

lemma loop_step_commit:
  assumes "txn c = None"
    and "first_failure link srv (transaction_of m) (committed c) (length (log c)) = Inr d'"
  shows "onMigration options (m_name m) = None \<Longrightarrow>
           apply_pending link srv options (m # rest) run c =
             apply_pending link srv options rest (run @ [m_name m])
               (c\<lparr>committed := d', log := log c @ transaction_of m\<rparr>)"
    and "onMigration options (m_name m) = Some e \<Longrightarrow>
           apply_pending link srv options (m # rest) run c =
             (\<lparr>success = False, migrationsRun = run @ [m_name m],
               error = Some (case link (length (log c) + 6) of
                               Some e' \<Rightarrow> e'
                             | None \<Rightarrow> ''Failed to apply '' @ m_name m @ '':  '' @ e)\<rparr>,
              c\<lparr>committed := d', log := log c @ transaction_of m @ [Rollback]\<rparr>)"
proof -
  from apply_steps_law [OF assms(1), of link srv m] assms(2)
  have st: "apply_steps link srv m c =
      (Inr [], c\<lparr>committed := d', log := log c @ transaction_of m\<rparr>)"
    by (simp add: client_txn_None [OF assms(1)])
  show "apply_pending link srv options (m # rest) run c =
             apply_pending link srv options rest (run @ [m_name m])
               (c\<lparr>committed := d', log := log c @ transaction_of m\<rparr>)"
    if "onMigration options (m_name m) = None"
    using st that by simp
  show "apply_pending link srv options (m # rest) run c =
             (\<lparr>success = False, migrationsRun = run @ [m_name m],
               error = Some (case link (length (log c) + 6) of
                               Some e' \<Rightarrow> e'
                             | None \<Rightarrow> ''Failed to apply '' @ m_name m @ '':  '' @ e)\<rparr>,
              c\<lparr>committed := d', log := log c @ transaction_of m @ [Rollback]\<rparr>)"
    if "onMigration options (m_name m) = Some e"
    using st that assms(1)
    by (simp add: rollback_and_fail_law transaction_length split: option.splits)
qed



section \<open>The loop over the pending migrations\<close>





section \<open>The whole of execute\<close>

lemma bootstrapped_history: "history (bootstrapped d) = Some (stored_rows d)"
  by (simp add: bootstrapped_def stored_rows_def split: option.splits)

lemma bootstrapped_schema: "schema (bootstrapped d) = schema d"
  by (simp add: bootstrapped_def split: option.splits)

lemma execute_prelude:
  assumes "txn c = None"
    and "link (length (log c)) = None" and "link (Suc (length (log c))) = None"
  shows "execute_on link srv ms opts c =
     (if pending_of (stored_rows (committed c)) ms = []
      then (\<lparr>success = True, migrationsRun = [], error = None\<rparr>,
            c\<lparr>committed := bootstrapped (committed c),
              log := log c @ [CreateHistoryTable, SelectApplied]\<rparr>)
      else if dryRun opts
      then (\<lparr>success = True,
             migrationsRun = map m_name (pending_of (stored_rows (committed c)) ms),
             error = None\<rparr>,
            c\<lparr>committed := bootstrapped (committed c),
              log := log c @ [CreateHistoryTable, SelectApplied]\<rparr>)
      else apply_pending link srv opts (pending_of (stored_rows (committed c)) ms) []
             (c\<lparr>committed := bootstrapped (committed c),
                log := log c @ [CreateHistoryTable, SelectApplied]\<rparr>))"
proof (cases "history (committed c)")
  case None
  with assms show ?thesis
    by (simp add: execute_on_def ensureMigrationTable_def getAppliedMigrations_def query_def
        bootstrapped_def stored_rows_def Let_def)
next
  case (Some rows)
  with assms show ?thesis
    by (simp add: execute_on_def ensureMigrationTable_def getAppliedMigrations_def query_def
        bootstrapped_def stored_rows_def Let_def)
qed




section \<open>Dry run\<close>

text \<open>
  Claim C10, as the code has it. With \<open>dryRun\<close> set, on a client with no open
  transaction, \<open>execute\<close> sends two statements, the history-table bootstrap and the
  \<open>SELECT\<close> of the applied rows, and nothing else: no \<open>BEGIN\<close>, no migration text and no
  \<open>INSERT\<close>. The database is as before, but for the history table now being there. The
  call returns success and \<open>migrationsRun\<close> is the names of the pending migrations in
  order. (Here \<open>execute\<close> is the call over the reliable connection, on which the two
  statements reach the server.)
\<close>

theorem dry_run_frame:
  assumes "txn c = None" and "dryRun options"
    and "execute srv migrations options c = (r, c')"
  shows "r = \<lparr>success = True,
              migrationsRun = map m_name (pending_of (stored_rows (committed c)) migrations),
              error = None\<rparr> \<and>
         sent c c' = [CreateHistoryTable, SelectApplied] \<and>
         history (committed c') = Some (stored_rows (committed c)) \<and>
         schema (committed c') = schema (committed c) \<and>
         txn c' = None"
proof -
  let ?c2 = "c\<lparr>committed := bootstrapped (committed c),
               log := log c @ [CreateHistoryTable, SelectApplied]\<rparr>"
  have pre: "reliable (length (log c)) = None" "reliable (Suc (length (log c))) = None"
    by (simp_all add: reliable_def)
  have "execute srv migrations options c =
      (\<lparr>success = True,
        migrationsRun = map m_name (pending_of (stored_rows (committed c)) migrations),
        error = None\<rparr>, ?c2)"
    using assms(2) by (simp add: execute_prelude [OF assms(1) pre])
  with assms(3) have r: "r = \<lparr>success = True,
        migrationsRun = map m_name (pending_of (stored_rows (committed c)) migrations),
        error = None\<rparr>" and c': "c' = ?c2"
    by simp_all
  show ?thesis
    unfolding c' using r assms(1)
    by (simp add: sent_def bootstrapped_history bootstrapped_schema)
qed

theorem dry_run_frame_witness:
  "txn (demo_client (Some [demo_row ''1_a'' ''aa''])) = None \<and> dryRun (demo_options True) \<and>
   execute demo_server demo_batch (demo_options True) (demo_client (Some [demo_row ''1_a'' ''aa''])) =
     (\<lparr>success = True, migrationsRun = [''2_b'', ''3_c''], error = None\<rparr>,
      \<lparr>committed = \<lparr>history = Some [demo_row ''1_a'' ''aa''], schema = []\<rparr>, txn = None,
       log = [CreateHistoryTable, SelectApplied]\<rparr>) \<and>
   sent (demo_client (Some [demo_row ''1_a'' ''aa'']))
        \<lparr>committed = \<lparr>history = Some [demo_row ''1_a'' ''aa''], schema = []\<rparr>, txn = None,
         log = [CreateHistoryTable, SelectApplied]\<rparr> = [CreateHistoryTable, SelectApplied]"
proof -
  have h1: "txn (demo_client (Some [demo_row ''1_a'' ''aa''])) = None"
    by (simp add: demo_client_def)
  have h2: "dryRun (demo_options True)" by (simp add: demo_options_def)
  have h3: "execute demo_server demo_batch (demo_options True)
      (demo_client (Some [demo_row ''1_a'' ''aa''])) =
     (\<lparr>success = True, migrationsRun = [''2_b'', ''3_c''], error = None\<rparr>,
      \<lparr>committed = \<lparr>history = Some [demo_row ''1_a'' ''aa''], schema = []\<rparr>, txn = None,
       log = [CreateHistoryTable, SelectApplied]\<rparr>)"
    by code_simp
  show ?thesis using dry_run_frame [OF h1 h2 h3] h1 h2 h3 by simp
qed

text \<open>
  Claim C10 as the specification words it fails: the bootstrap is not the only
  statement of a dry run, the \<open>SELECT\<close> of the applied rows is sent as well.
\<close>

theorem dry_run_only_bootstrap_counterexample:
  "dryRun (demo_options True) \<and>
   SelectApplied \<in> set (sent (demo_client None)
     (snd (execute demo_server demo_batch (demo_options True) (demo_client None)))) \<and>
   SelectApplied \<noteq> CreateHistoryTable"
  by code_simp

section \<open>What the executor sends\<close>

lemma sends_sent: "sends A f \<Longrightarrow> set (sent c (snd (f c))) \<subseteq> A"
proof -
  assume "sends A f"
  then obtain X where "log (snd (f c)) = log c @ X" and "set X \<subseteq> A"
    unfolding sends_def by blast
  then show ?thesis by (simp add: sent_def)
qed

lemma sends_mono: "A \<subseteq> B \<Longrightarrow> sends A f \<Longrightarrow> sends B f"
  unfolding sends_def by (meson subset_trans)

lemma sends_return: "sends A (\<lambda>c. (x, c))"
  unfolding sends_def by simp

lemma sends_query: "s \<in> A \<Longrightarrow> sends A (query link srv s)"
  unfolding sends_def using query_log by fastforce

lemma sends_compose:
  assumes "sends A f" and "\<And>r. sends A (k r)"
  shows "sends A (\<lambda>c. case f c of (r, c1) \<Rightarrow> k r c1)"
  unfolding sends_def
proof
  fix c
  obtain r c1 where f: "f c = (r, c1)" by (cases "f c")
  from assms(1) f obtain X where X: "log c1 = log c @ X" "set X \<subseteq> A"
    unfolding sends_def by (metis snd_conv)
  from assms(2) [of r] obtain Y where Y: "log (snd (k r c1)) = log c1 @ Y" "set Y \<subseteq> A"
    unfolding sends_def by blast
  have "log (snd (case f c of (r, c1) \<Rightarrow> k r c1)) = log c @ (X @ Y)"
    using f X Y by simp
  moreover have "set (X @ Y) \<subseteq> A" using X Y by simp
  ultimately show "\<exists>Z. log (snd (case f c of (r, c1) \<Rightarrow> k r c1)) = log c @ Z \<and> set Z \<subseteq> A"
    by blast
qed

lemma and_then_compose:
  "and_then f g = (\<lambda>c. case f c of (r, c1) \<Rightarrow> (case r of Inl e \<Rightarrow> (Inl e, c1) | Inr x \<Rightarrow> g x c1))"
  by (rule ext) (simp add: and_then_def split: prod.splits sum.splits)

lemma sends_and_then:
  assumes "sends A f" and "\<And>x. sends A (g x)"
  shows "sends A (and_then f g)"
  unfolding and_then_compose
proof (rule sends_compose [OF assms(1)])
  fix r
  show "sends A (\<lambda>c1. case r of Inl e \<Rightarrow> (Inl e, c1) | Inr x \<Rightarrow> g x c1)"
    using assms(2) by (cases r) (simp_all add: sends_return)
qed

lemma validateSQL_compose:
  "validateSQL link srv sql =
     (\<lambda>c. case and_then (query link srv (Prepare sql)) (\<lambda>_. query link srv Deallocate) c of
             (r, c1) \<Rightarrow> (case r of Inl e \<Rightarrow> (Inl (''Invalid SQL:  '' @ e), c1)
                                  | Inr x \<Rightarrow> (Inr x, c1)))"
  by (rule ext) (simp add: validateSQL_def split: prod.splits sum.splits)

lemma sends_validateSQL:
  assumes "Prepare sql \<in> A" and "Deallocate \<in> A"
  shows "sends A (validateSQL link srv sql)"
  unfolding validateSQL_compose
proof (rule sends_compose)
  show "sends A (and_then (query link srv (Prepare sql)) (\<lambda>_. query link srv Deallocate))"
    using assms by (intro sends_and_then sends_query)
next
  fix r :: "string + HistoryRow list"
  show "sends A (\<lambda>c1. case r of Inl e \<Rightarrow> (Inl (''Invalid SQL:  '' @ e), c1)
                                | Inr x \<Rightarrow> (Inr x, c1))"
    by (cases r) (simp_all add: sends_return)
qed

lemma sends_apply_steps:
  assumes "set (transaction_of m) \<subseteq> A"
  shows "sends A (apply_steps link srv m)"
proof -
  from assms have "Begin \<in> A" "Prepare (m_content m) \<in> A" "Deallocate \<in> A"
    "Run (m_content m) \<in> A" "InsertHistory (m_name m) (m_checksum m) \<in> A" "Commit \<in> A"
    by (simp_all add: transaction_of_def)
  then show ?thesis
    unfolding apply_steps_def
    by (intro sends_and_then sends_query sends_validateSQL)
qed

lemma rollback_and_fail_compose:
  "rollback_and_fail link srv m e run =
     (\<lambda>c. case query link srv Rollback c of
             (r, c1) \<Rightarrow>
               (case r of
                  Inl e' \<Rightarrow> (\<lparr>success = False, migrationsRun = run, error = Some e'\<rparr>, c1)
                | Inr x \<Rightarrow>
                    (\<lparr>success = False, migrationsRun = run,
                      error = Some (''Failed to apply '' @ m_name m @ '':  '' @ e)\<rparr>, c1)))"
  by (rule ext) (simp add: rollback_and_fail_def split: prod.splits sum.splits)

lemma sends_rollback_and_fail:
  assumes "Rollback \<in> A"
  shows "sends A (rollback_and_fail link srv m e run)"
  unfolding rollback_and_fail_compose
proof (rule sends_compose [OF sends_query [OF assms]])
  fix r :: "string + HistoryRow list"
  show "sends A (\<lambda>c1. case r of
                  Inl e' \<Rightarrow> (\<lparr>success = False, migrationsRun = run, error = Some e'\<rparr>, c1)
                | Inr x \<Rightarrow>
                    (\<lparr>success = False, migrationsRun = run,
                      error = Some (''Failed to apply '' @ m_name m @ '':  '' @ e)\<rparr>, c1))"
    by (cases r) (simp_all add: sends_return)
qed

lemma apply_pending_compose:
  "apply_pending link srv options (m # rest) run =
     (\<lambda>c. case apply_steps link srv m c of
             (r, c1) \<Rightarrow>
               (case r of
                  Inl e \<Rightarrow> rollback_and_fail link srv m e run c1
                | Inr x \<Rightarrow>
                    (case onMigration options (m_name m) of
                       Some e \<Rightarrow> rollback_and_fail link srv m e (run @ [m_name m]) c1
                     | None \<Rightarrow> apply_pending link srv options rest (run @ [m_name m]) c1)))"
  by (rule ext) (simp split: prod.splits sum.splits)

lemma sends_apply_pending:
  assumes "Rollback \<in> A" and "\<forall>p \<in> set ps. set (transaction_of p) \<subseteq> A"
  shows "sends A (apply_pending link srv options ps run)"
  using assms(2)
proof (induction ps arbitrary: run)
  case Nil
  have "apply_pending link srv options [] run =
      (\<lambda>c. (\<lparr>success = True, migrationsRun = run, error = None\<rparr>, c))"
    by (rule ext) simp
  then show ?case by (simp add: sends_return)
next
  case (Cons m ps)
  show ?case
    unfolding apply_pending_compose
  proof (rule sends_compose)
    show "sends A (apply_steps link srv m)"
      using Cons.prems by (simp add: sends_apply_steps)
  next
    fix r :: "string + HistoryRow list"
    have rec: "sends A (apply_pending link srv options ps (run @ [m_name m]))"
      using Cons.IH Cons.prems by simp
    show "sends A (\<lambda>c1. case r of
                  Inl e \<Rightarrow> rollback_and_fail link srv m e run c1
                | Inr x \<Rightarrow>
                    (case onMigration options (m_name m) of
                       Some e \<Rightarrow> rollback_and_fail link srv m e (run @ [m_name m]) c1
                     | None \<Rightarrow> apply_pending link srv options ps (run @ [m_name m]) c1))"
      using rec sends_rollback_and_fail [OF assms(1)]
      by (cases r; cases "onMigration options (m_name m)") simp_all
  qed
qed

lemma pending_of_set:
  "set (pending_of rows ms) = {m \<in> set ms. m_name m \<notin> h_name ` set rows}"
  by (auto simp: pending_of_def)

lemma transaction_of_set:
  "set (transaction_of p) =
     {Begin, Prepare (m_content p), Deallocate, Run (m_content p),
      InsertHistory (m_name p) (m_checksum p), Commit}"
  by (simp add: transaction_of_def)

lemma sends_pending:
  "sends ({CreateHistoryTable, SelectApplied, Begin, Commit, Rollback, Deallocate} \<union>
          (\<Union>p \<in> set ps.
             {Prepare (m_content p), Run (m_content p),
              InsertHistory (m_name p) (m_checksum p)}))
     (apply_pending link srv options ps run)"
proof (rule sends_apply_pending)
  show "Rollback \<in> {CreateHistoryTable, SelectApplied, Begin, Commit, Rollback, Deallocate} \<union>
          (\<Union>p \<in> set ps.
             {Prepare (m_content p), Run (m_content p),
              InsertHistory (m_name p) (m_checksum p)})"
    by simp
  show "\<forall>q \<in> set ps. set (transaction_of q) \<subseteq>
          {CreateHistoryTable, SelectApplied, Begin, Commit, Rollback, Deallocate} \<union>
          (\<Union>p \<in> set ps.
             {Prepare (m_content p), Run (m_content p),
              InsertHistory (m_name p) (m_checksum p)})"
    unfolding transaction_of_set by blast
qed

lemma execute_on_compose:
  "execute_on link srv ms options =
     (\<lambda>c. case query link srv CreateHistoryTable c of
             (r1, c1) \<Rightarrow>
               (case r1 of
                  Inl e \<Rightarrow> (\<lparr>success = False, migrationsRun = [], error = Some e\<rparr>, c1)
                | Inr x \<Rightarrow>
                    (case query link srv SelectApplied c1 of
                       (r2, c2) \<Rightarrow>
                         (case r2 of
                            Inl e \<Rightarrow>
                              (\<lparr>success = False, migrationsRun = [], error = Some e\<rparr>, c2)
                          | Inr applied \<Rightarrow>
                              (if pending_of applied ms = []
                               then (\<lparr>success = True, migrationsRun = [], error = None\<rparr>, c2)
                               else if dryRun options
                               then (\<lparr>success = True,
                                      migrationsRun = map m_name (pending_of applied ms),
                                      error = None\<rparr>, c2)
                               else apply_pending link srv options (pending_of applied ms) []
                                      c2)))))"
  by (rule ext)
    (simp add: execute_on_def ensureMigrationTable_def getAppliedMigrations_def Let_def
      split: prod.splits sum.splits)

lemma sends_execute_on:
  "sends ({CreateHistoryTable, SelectApplied, Begin, Commit, Rollback, Deallocate} \<union>
          (\<Union>p \<in> set ms.
             {Prepare (m_content p), Run (m_content p),
              InsertHistory (m_name p) (m_checksum p)}))
     (execute_on link srv ms options)"
    (is "sends ?A _")
  unfolding execute_on_compose
proof (rule sends_compose)
  show "sends ?A (query link srv CreateHistoryTable)" by (simp add: sends_query)
next
  fix r1 :: "string + HistoryRow list"
  have sel: "sends ?A (\<lambda>c1. case query link srv SelectApplied c1 of
                       (r2, c2) \<Rightarrow>
                         (case r2 of
                            Inl e \<Rightarrow>
                              (\<lparr>success = False, migrationsRun = [], error = Some e\<rparr>, c2)
                          | Inr applied \<Rightarrow>
                              (if pending_of applied ms = []
                               then (\<lparr>success = True, migrationsRun = [], error = None\<rparr>, c2)
                               else if dryRun options
                               then (\<lparr>success = True,
                                      migrationsRun = map m_name (pending_of applied ms),
                                      error = None\<rparr>, c2)
                               else apply_pending link srv options (pending_of applied ms) []
                                      c2)))"
  proof (rule sends_compose)
    show "sends ?A (query link srv SelectApplied)" by (simp add: sends_query)
  next
    fix r2 :: "string + HistoryRow list"
    have loop: "sends ?A (apply_pending link srv options (pending_of applied ms) [])" for applied
    proof (rule sends_mono [OF _ sends_pending])
      show "{CreateHistoryTable, SelectApplied, Begin, Commit, Rollback, Deallocate} \<union>
          (\<Union>p \<in> set (pending_of applied ms).
             {Prepare (m_content p), Run (m_content p),
              InsertHistory (m_name p) (m_checksum p)}) \<subseteq> ?A"
        by (auto simp: pending_of_set)
    qed
    show "sends ?A (\<lambda>c2. case r2 of
                            Inl e \<Rightarrow>
                              (\<lparr>success = False, migrationsRun = [], error = Some e\<rparr>, c2)
                          | Inr applied \<Rightarrow>
                              (if pending_of applied ms = []
                               then (\<lparr>success = True, migrationsRun = [], error = None\<rparr>, c2)
                               else if dryRun options
                               then (\<lparr>success = True,
                                      migrationsRun = map m_name (pending_of applied ms),
                                      error = None\<rparr>, c2)
                               else apply_pending link srv options (pending_of applied ms) []
                                      c2))"
    proof (cases r2)
      case (Inl e)
      then show ?thesis by (simp add: sends_return)
    next
      case (Inr applied)
      show ?thesis
      proof (cases "pending_of applied ms = []")
        case True
        with Inr show ?thesis by (simp add: sends_return)
      next
        case False
        show ?thesis
        proof (cases "dryRun options")
          case True
          with Inr False show ?thesis by (simp add: sends_return)
        next
          case dry: False
          with Inr False loop [of applied] show ?thesis by simp
        qed
      qed
    qed
  qed
  show "sends ?A (\<lambda>c1. case r1 of
                  Inl e \<Rightarrow> (\<lparr>success = False, migrationsRun = [], error = Some e\<rparr>, c1)
                | Inr x \<Rightarrow>
                    (case query link srv SelectApplied c1 of
                       (r2, c2) \<Rightarrow>
                         (case r2 of
                            Inl e \<Rightarrow>
                              (\<lparr>success = False, migrationsRun = [], error = Some e\<rparr>, c2)
                          | Inr applied \<Rightarrow>
                              (if pending_of applied ms = []
                               then (\<lparr>success = True, migrationsRun = [], error = None\<rparr>, c2)
                               else if dryRun options
                               then (\<lparr>success = True,
                                      migrationsRun = map m_name (pending_of applied ms),
                                      error = None\<rparr>, c2)
                               else apply_pending link srv options (pending_of applied ms) []
                                      c2))))"
    using sel by (cases r1) (simp_all add: sends_return)
qed

lemma migrationsRun_rollback_and_fail:
  "migrationsRun (fst (rollback_and_fail link srv m e run c)) = run"
  by (simp add: rollback_and_fail_def split: prod.splits sum.splits)

lemma migrationsRun_pending:
  "set (migrationsRun (fst (apply_pending link srv options ps run c))) \<subseteq>
     set run \<union> m_name ` set ps"
proof (induction ps arbitrary: run c)
  case Nil
  then show ?case by simp
next
  case (Cons m ps)
  obtain r c1 where st: "apply_steps link srv m c = (r, c1)"
    by (cases "apply_steps link srv m c")
  show ?case
  proof (cases r)
    case (Inl e)
    with st show ?thesis by (auto simp: migrationsRun_rollback_and_fail)
  next
    case (Inr x)
    show ?thesis
    proof (cases "onMigration options (m_name m)")
      case None
      with st Inr Cons.IH [of "run @ [m_name m]" c1] show ?thesis by auto
    next
      case (Some e)
      with st Inr show ?thesis by (auto simp: migrationsRun_rollback_and_fail)
    qed
  qed
qed

lemma execute_trace:
  assumes "txn c = None" and "execute srv ms opts c = (r, c')"
    and "pending = pending_of (stored_rows (committed c)) ms"
  shows "set (sent c c') \<subseteq>
           {CreateHistoryTable, SelectApplied, Begin, Commit, Rollback, Deallocate} \<union>
           (\<Union>p \<in> set pending.
              {Prepare (m_content p), Run (m_content p),
               InsertHistory (m_name p) (m_checksum p)})"
    and "set (migrationsRun r) \<subseteq> m_name ` set pending"
proof -
  let ?c2 = "c\<lparr>committed := bootstrapped (committed c),
               log := log c @ [CreateHistoryTable, SelectApplied]\<rparr>"
  let ?A = "{CreateHistoryTable, SelectApplied, Begin, Commit, Rollback, Deallocate} \<union>
           (\<Union>p \<in> set pending.
              {Prepare (m_content p), Run (m_content p),
               InsertHistory (m_name p) (m_checksum p)})"
  have pre: "reliable (length (log c)) = None" "reliable (Suc (length (log c))) = None"
    by (simp_all add: reliable_def)
  have "set (sent c c') \<subseteq> ?A \<and> set (migrationsRun r) \<subseteq> m_name ` set pending"
  proof (cases "pending = [] \<or> dryRun opts")
    case True
    then have "execute srv ms opts c =
      (\<lparr>success = True, migrationsRun = map m_name pending, error = None\<rparr>, ?c2)"
      using assms(3) by (auto simp: execute_prelude [OF assms(1) pre])
    with assms(2) have "r = \<lparr>success = True, migrationsRun = map m_name pending, error = None\<rparr>"
      and "c' = ?c2" by simp_all
    then show ?thesis by (simp add: sent_def)
  next
    case False
    then have run: "apply_pending reliable srv opts pending [] ?c2 = (r, c')"
      using assms(2,3) by (simp add: execute_prelude [OF assms(1) pre])
    from sends_pending [of pending reliable srv opts "[]"]
    obtain X where "log (snd (apply_pending reliable srv opts pending [] ?c2)) = log ?c2 @ X"
      and X: "set X \<subseteq> ?A"
      unfolding sends_def by blast
    with run have "log c' = log c @ [CreateHistoryTable, SelectApplied] @ X" by simp
    then have "sent c c' = [CreateHistoryTable, SelectApplied] @ X" by (simp add: sent_def)
    with X have 1: "set (sent c c') \<subseteq> ?A" by auto
    from migrationsRun_pending [of reliable srv opts pending "[]" ?c2] run
    have 2: "set (migrationsRun r) \<subseteq> m_name ` set pending" by simp
    from 1 2 show ?thesis by simp
  qed
  then show "set (sent c c') \<subseteq> ?A" and "set (migrationsRun r) \<subseteq> m_name ` set pending"
    by simp_all
qed

text \<open>
  Claim C9. The pending set is computed from the names alone. Let a migration of the
  input carry the name of a history row, whatever its content, checksum or version.
  Then it is not pending, its name is not in \<open>migrationsRun\<close>, no \<open>INSERT\<close> with its name is
  sent, and every migration text that is run is the content of a migration whose name
  is in no history row. (Here \<open>execute\<close> is the call over the reliable connection, on
  which the \<open>SELECT\<close> of the applied rows is answered.)
\<close>

theorem applied_names_skipped:
  assumes "txn c = None"
    and "execute srv migrations options c = (r, c')"
    and "m \<in> set migrations"
    and "m_name m \<in> h_name ` set (stored_rows (committed c))"
  shows "m \<notin> set (pending_of (stored_rows (committed c)) migrations) \<and>
         m_name m \<notin> set (migrationsRun r) \<and>
         (\<forall>checksum. InsertHistory (m_name m) checksum \<notin> set (sent c c')) \<and>
         (\<forall>sql. Run sql \<in> set (sent c c') \<longrightarrow>
            (\<exists>p \<in> set migrations.
               m_name p \<notin> h_name ` set (stored_rows (committed c)) \<and> m_content p = sql))"
proof -
  let ?pending = "pending_of (stored_rows (committed c)) migrations"
  note tr = execute_trace [OF assms(1,2) refl]
  have np: "\<And>p. p \<in> set ?pending \<Longrightarrow> m_name p \<noteq> m_name m"
    using assms(4) by (auto simp: pending_of_set)
  have 1: "m \<notin> set ?pending" using np by blast
  have 2: "m_name m \<notin> set (migrationsRun r)" using tr(2) np by (metis imageE subsetD)
  have 3: "InsertHistory (m_name m) checksum \<notin> set (sent c c')" for checksum
  proof
    assume "InsertHistory (m_name m) checksum \<in> set (sent c c')"
    then have "InsertHistory (m_name m) checksum \<in>
        {CreateHistoryTable, SelectApplied, Begin, Commit, Rollback, Deallocate} \<union>
        (\<Union>p \<in> set ?pending.
           {Prepare (m_content p), Run (m_content p),
            InsertHistory (m_name p) (m_checksum p)})"
      using tr(1) by (rule subsetD [rotated])
    then obtain p where "p \<in> set ?pending" and "m_name p = m_name m" by auto
    with np show False by blast
  qed
  have 4: "\<exists>p \<in> set migrations.
      m_name p \<notin> h_name ` set (stored_rows (committed c)) \<and> m_content p = sql"
    if "Run sql \<in> set (sent c c')" for sql
  proof -
    from that have "Run sql \<in>
        {CreateHistoryTable, SelectApplied, Begin, Commit, Rollback, Deallocate} \<union>
        (\<Union>p \<in> set ?pending.
           {Prepare (m_content p), Run (m_content p),
            InsertHistory (m_name p) (m_checksum p)})"
      using tr(1) by (rule subsetD [rotated])
    then obtain p where "p \<in> set ?pending" and "m_content p = sql" by auto
    then show ?thesis by (auto simp: pending_of_set)
  qed
  from 1 2 3 4 show ?thesis by blast
qed


theorem applied_names_skipped_witness:
  "txn (demo_client (Some [demo_row ''1_a'' ''zz''])) = None \<and>
   execute demo_server demo_batch (demo_options False) (demo_client (Some [demo_row ''1_a'' ''zz''])) =
     (\<lparr>success = False, migrationsRun = [],
       error = Some ''Failed to apply 2_b:  table does not exist''\<rparr>,
      \<lparr>committed = \<lparr>history = Some [demo_row ''1_a'' ''zz''], schema = []\<rparr>, txn = None,
       log = [CreateHistoryTable, SelectApplied, Begin, Prepare ''DROP TABLE missing'',
              Deallocate, Run ''DROP TABLE missing'', Rollback]\<rparr>) \<and>
   demo_migration ''1'' ''1_a'' ''CREATE TABLE a (id INT)'' ''aa'' \<in> set demo_batch \<and>
   m_name (demo_migration ''1'' ''1_a'' ''CREATE TABLE a (id INT)'' ''aa'') \<in>
     h_name ` set (stored_rows (committed (demo_client (Some [demo_row ''1_a'' ''zz''])))) \<and>
   demo_migration ''1'' ''1_a'' ''CREATE TABLE a (id INT)'' ''aa'' \<notin>
     set (pending_of (stored_rows (committed (demo_client (Some [demo_row ''1_a'' ''zz'']))))
            demo_batch)"
proof -
  have h1: "txn (demo_client (Some [demo_row ''1_a'' ''zz''])) = None"
    by (simp add: demo_client_def)
  have h2: "execute demo_server demo_batch (demo_options False)
      (demo_client (Some [demo_row ''1_a'' ''zz''])) =
     (\<lparr>success = False, migrationsRun = [],
       error = Some ''Failed to apply 2_b:  table does not exist''\<rparr>,
      \<lparr>committed = \<lparr>history = Some [demo_row ''1_a'' ''zz''], schema = []\<rparr>, txn = None,
       log = [CreateHistoryTable, SelectApplied, Begin, Prepare ''DROP TABLE missing'',
              Deallocate, Run ''DROP TABLE missing'', Rollback]\<rparr>)"
    by code_simp
  have h3: "demo_migration ''1'' ''1_a'' ''CREATE TABLE a (id INT)'' ''aa'' \<in> set demo_batch"
    by (simp add: demo_batch_def)
  have h4: "m_name (demo_migration ''1'' ''1_a'' ''CREATE TABLE a (id INT)'' ''aa'') \<in>
     h_name ` set (stored_rows (committed (demo_client (Some [demo_row ''1_a'' ''zz'']))))"
    by (simp add: demo_migration_def demo_client_def stored_rows_def demo_row_def)
  from applied_names_skipped [OF h1 h2 h3 h4] h1 h2 h3 h4 show ?thesis by blast
qed

section \<open>Rollback\<close>

lemma delete_rows_spec:
  assumes "txn c = None" and "history (committed c) = Some rows"
    and "delete_rows reliable srv ns c = (res, c')"
  shows "res = Inr () \<and>
         history (committed c') = Some (filter (\<lambda>row. h_name row \<notin> set ns) rows) \<and>
         schema (committed c') = schema (committed c) \<and>
         txn c' = None \<and>
         log c' = log c @ map DeleteHistory ns"
  using assms
proof (induction ns arbitrary: c rows)
  case Nil
  then show ?case by auto
next
  case (Cons n ns)
  let ?c1 = "c\<lparr>committed := (committed c)\<lparr>history := Some (filter (\<lambda>r. h_name r \<noteq> n) rows)\<rparr>,
               log := log c @ [DeleteHistory n]\<rparr>"
  have q: "query reliable srv (DeleteHistory n) c = (Inr [], ?c1)"
    using Cons.prems(1,2) by (simp add: query_reliable)
  with Cons.prems(3) have rec: "delete_rows reliable srv ns ?c1 = (res, c')" by simp
  have t1: "txn ?c1 = None" using Cons.prems(1) by simp
  have h1: "history (committed ?c1) = Some (filter (\<lambda>r. h_name r \<noteq> n) rows)" by simp
  have f: "filter (\<lambda>row. h_name row \<notin> set ns) (filter (\<lambda>r. h_name r \<noteq> n) rows) =
           filter (\<lambda>row. h_name row \<notin> set (n # ns)) rows"
    by (induction rows) auto
  from Cons.IH [OF t1 h1 rec] show ?case by (simp add: f)
qed

lemma rollback_prelude:
  assumes "txn c = None"
  shows "rollback srv count c =
     (if count < 0
      then (\<lparr>success = False, migrationsRun = [], error = Some ''LIMIT must not be negative''\<rparr>,
            c\<lparr>committed := bootstrapped (committed c),
              log := log c @ [CreateHistoryTable, SelectLast count]\<rparr>)
      else if last_names count (stored_rows (committed c)) = []
      then (\<lparr>success = True, migrationsRun = [], error = None\<rparr>,
            c\<lparr>committed := bootstrapped (committed c),
              log := log c @ [CreateHistoryTable, SelectLast count]\<rparr>)
      else (case delete_rows reliable srv (last_names count (stored_rows (committed c)))
                   (c\<lparr>committed := bootstrapped (committed c),
                      log := log c @ [CreateHistoryTable, SelectLast count]\<rparr>) of
              (Inl e, c3) \<Rightarrow> (\<lparr>success = False, migrationsRun = [], error = Some e\<rparr>, c3)
            | (Inr _, c3) \<Rightarrow>
                (\<lparr>success = True,
                  migrationsRun = last_names count (stored_rows (committed c)),
                  error = None\<rparr>, c3)))"
proof (cases "history (committed c)")
  case None
  with assms show ?thesis
    by (simp add: rollback_on_def ensureMigrationTable_def query_reliable bootstrapped_def
        stored_rows_def last_names_def Let_def split: prod.splits sum.splits)
next
  case (Some rows)
  with assms show ?thesis
    by (simp add: rollback_on_def ensureMigrationTable_def query_reliable bootstrapped_def
        stored_rows_def last_names_def Let_def split: prod.splits sum.splits)
qed

lemma rollback_spec:
  assumes "txn c = None" and "0 \<le> count" and "rollback srv count c = (r, c')"
    and "names = last_names count (stored_rows (committed c))"
  shows "r = \<lparr>success = True, migrationsRun = names, error = None\<rparr> \<and>
         sent c c' = [CreateHistoryTable, SelectLast count] @ map DeleteHistory names \<and>
         history (committed c') =
           Some (filter (\<lambda>row. h_name row \<notin> set names) (stored_rows (committed c))) \<and>
         schema (committed c') = schema (committed c) \<and>
         txn c' = None"
proof -
  let ?c2 = "c\<lparr>committed := bootstrapped (committed c),
               log := log c @ [CreateHistoryTable, SelectLast count]\<rparr>"
  obtain res c3 where d: "delete_rows reliable srv names ?c2 = (res, c3)"
    by (cases "delete_rows reliable srv names ?c2")
  have t2: "txn ?c2 = None" using assms(1) by simp
  have h2: "history (committed ?c2) = Some (stored_rows (committed c))"
    by (simp add: bootstrapped_history)
  from delete_rows_spec [OF t2 h2 d]
  have res: "res = Inr ()"
    and hi: "history (committed c3) =
      Some (filter (\<lambda>row. h_name row \<notin> set names) (stored_rows (committed c)))"
    and sc: "schema (committed c3) = schema (committed c)"
    and tx: "txn c3 = None"
    and lg: "log c3 = log c @ [CreateHistoryTable, SelectLast count] @ map DeleteHistory names"
    by (simp_all add: bootstrapped_schema)
  have "rollback srv count c = (\<lparr>success = True, migrationsRun = names, error = None\<rparr>, c3)"
  proof (cases "names = []")
    case True
    with d have "c3 = ?c2" by simp
    with True assms(2,4) show ?thesis by (simp add: rollback_prelude [OF assms(1)])
  next
    case False
    with assms(2,4) d res show ?thesis by (simp add: rollback_prelude [OF assms(1)])
  qed
  with assms(3) have "r = \<lparr>success = True, migrationsRun = names, error = None\<rparr>" and "c' = c3"
    by simp_all
  then show ?thesis using hi sc tx lg by (simp add: sent_def)
qed

text \<open>
  Claim C4, as the code has it. \<open>rollback\<close> with a count that is not negative, on a client
  with no open transaction, takes the names of the last \<open>count\<close> history rows (latest
  first by \<open>applied_at\<close>, then reversed) and sends one \<open>DELETE\<close> for each, after the
  bootstrap and the \<open>SELECT\<close>. It sends no \<open>BEGIN\<close> and no migration text, reads no file,
  and has no strict mode: it succeeds, the rows with those names are gone, the rest
  of the database is as before, and \<open>migrationsRun\<close> is those names. (Here \<open>rollback\<close> is
  the call over the reliable connection, on which every statement reaches the server.)
\<close>

theorem rollback_deletes_rows:
  assumes "txn c = None" and "0 \<le> count" and "rollback srv count c = (r, c')"
    and "names = rev (map h_name (take (nat count) (rev (stored_rows (committed c)))))"
  shows "r = \<lparr>success = True, migrationsRun = names, error = None\<rparr> \<and>
         sent c c' = [CreateHistoryTable, SelectLast count] @ map DeleteHistory names \<and>
         history (committed c') =
           Some (filter (\<lambda>row. h_name row \<notin> set names) (stored_rows (committed c))) \<and>
         schema (committed c') = schema (committed c) \<and>
         txn c' = None"
  using rollback_spec [OF assms(1,2,3)] assms(4) by (simp add: last_names_def)

theorem rollback_deletes_rows_witness:
  "txn (demo_client (Some [demo_row ''1_a'' ''aa'', demo_row ''2_b'' ''bb''])) = None \<and>
   (0::int) \<le> 1 \<and>
   rollback demo_server 1 (demo_client (Some [demo_row ''1_a'' ''aa'', demo_row ''2_b'' ''bb''])) =
     (\<lparr>success = True, migrationsRun = [''2_b''], error = None\<rparr>,
      \<lparr>committed = \<lparr>history = Some [demo_row ''1_a'' ''aa''], schema = []\<rparr>, txn = None,
       log = [CreateHistoryTable, SelectLast 1, DeleteHistory ''2_b'']\<rparr>) \<and>
   [''2_b''] = rev (map h_name (take (nat 1) (rev (stored_rows (committed
      (demo_client (Some [demo_row ''1_a'' ''aa'', demo_row ''2_b'' ''bb''])))))))"
proof -
  have h1: "txn (demo_client (Some [demo_row ''1_a'' ''aa'', demo_row ''2_b'' ''bb''])) = None"
    by (simp add: demo_client_def)
  have h2: "(0::int) \<le> 1" by simp
  have h3: "rollback demo_server 1
      (demo_client (Some [demo_row ''1_a'' ''aa'', demo_row ''2_b'' ''bb''])) =
     (\<lparr>success = True, migrationsRun = [''2_b''], error = None\<rparr>,
      \<lparr>committed = \<lparr>history = Some [demo_row ''1_a'' ''aa''], schema = []\<rparr>, txn = None,
       log = [CreateHistoryTable, SelectLast 1, DeleteHistory ''2_b'']\<rparr>)"
    by code_simp
  have h4: "[''2_b''] = rev (map h_name (take (nat 1) (rev (stored_rows (committed
      (demo_client (Some [demo_row ''1_a'' ''aa'', demo_row ''2_b'' ''bb''])))))))"
    by code_simp
  from rollback_deletes_rows [OF h1 h2 h3 h4] h1 h2 h3 h4 show ?thesis by blast
qed

text \<open>
  Claim C4 as the specification words it fails. The function takes a count and
  nothing else, so no down file and no mode reach it: the two latest rows are deleted
  with no transaction and no DDL, and the call succeeds where the strict mode of the
  specification would abort.
\<close>

theorem rollback_down_file_counterexample:
  "rollback demo_server 2
     (demo_client (Some [demo_row ''1_a'' ''aa'', demo_row ''2_b'' ''bb'', demo_row ''3_c'' ''cc''])) =
     (\<lparr>success = True, migrationsRun = [''2_b'', ''3_c''], error = None\<rparr>,
      \<lparr>committed = \<lparr>history = Some [demo_row ''1_a'' ''aa''], schema = []\<rparr>, txn = None,
       log = [CreateHistoryTable, SelectLast 2, DeleteHistory ''2_b'',
              DeleteHistory ''3_c'']\<rparr>)"
  by code_simp

section \<open>No lock statement\<close>

lemma delete_rows_compose:
  "delete_rows link srv (n # ns) =
     (\<lambda>c. case query link srv (DeleteHistory n) c of
             (r, c1) \<Rightarrow> (case r of Inl e \<Rightarrow> (Inl e, c1) | Inr x \<Rightarrow> delete_rows link srv ns c1))"
  by (rule ext) (simp split: prod.splits sum.splits)

lemma sends_delete_rows:
  assumes "range DeleteHistory \<subseteq> A"
  shows "sends A (delete_rows link srv ns)"
proof (induction ns)
  case Nil
  have "delete_rows link srv [] = (\<lambda>c. (Inr (), c))" by (rule ext) simp
  then show ?case by (simp add: sends_return)
next
  case (Cons n ns)
  show ?case
    unfolding delete_rows_compose
  proof (rule sends_compose)
    show "sends A (query link srv (DeleteHistory n))"
      using assms by (intro sends_query) blast
  next
    fix r :: "string + HistoryRow list"
    show "sends A (\<lambda>c1. case r of Inl e \<Rightarrow> (Inl e, c1)
                                | Inr x \<Rightarrow> delete_rows link srv ns c1)"
      using Cons.IH by (cases r) (simp_all add: sends_return)
  qed
qed

lemma sends_rollback_on:
  "sends ({CreateHistoryTable, SelectLast count} \<union> range DeleteHistory)
     (rollback_on link srv count)"
    (is "sends ?A _")
  unfolding sends_def
proof
  fix c
  obtain r1 c1 where q1: "query link srv CreateHistoryTable c = (r1, c1)"
    by (cases "query link srv CreateHistoryTable c")
  have l1: "log c1 = log c @ [CreateHistoryTable]"
    using query_log [of link srv CreateHistoryTable c] q1 by simp
  show "\<exists>X. log (snd (rollback_on link srv count c)) = log c @ X \<and> set X \<subseteq> ?A"
  proof (cases r1)
    case (Inl e)
    with q1 have "snd (rollback_on link srv count c) = c1"
      by (simp add: rollback_on_def ensureMigrationTable_def)
    with l1 show ?thesis by simp
  next
    case r1: (Inr x)
    obtain r2 c2 where q2: "query link srv (SelectLast count) c1 = (r2, c2)"
      by (cases "query link srv (SelectLast count) c1")
    have l2: "log c2 = log c @ [CreateHistoryTable, SelectLast count]"
      using query_log [of link srv "SelectLast count" c1] q2 l1 by simp
    show ?thesis
    proof (cases r2)
      case (Inl e)
      with q1 q2 r1 have "snd (rollback_on link srv count c) = c2"
        by (simp add: rollback_on_def ensureMigrationTable_def)
      with l2 show ?thesis by simp
    next
      case r2: (Inr rows)
      obtain r3 c3 where d: "delete_rows link srv (rev (map h_name rows)) c2 = (r3, c3)"
        by (cases "delete_rows link srv (rev (map h_name rows)) c2")
      have "sends ?A (delete_rows link srv (rev (map h_name rows)))"
        by (rule sends_delete_rows) blast
      then have "\<exists>Y. log (snd (delete_rows link srv (rev (map h_name rows)) c2)) = log c2 @ Y \<and>
                  set Y \<subseteq> ?A"
        unfolding sends_def by (rule spec)
      then obtain Y where Y: "log c3 = log c2 @ Y" "set Y \<subseteq> ?A"
        using d by auto
      have "snd (rollback_on link srv count c) = c3"
      proof (cases "rows = []")
        case True
        with d have "c3 = c2" by simp
        with True q1 q2 r1 r2 show ?thesis
          by (simp add: rollback_on_def ensureMigrationTable_def)
      next
        case False
        with q1 q2 r1 r2 d show ?thesis
          by (cases r3) (simp_all add: rollback_on_def ensureMigrationTable_def)
      qed
      with Y l2 have "log (snd (rollback_on link srv count c)) =
          log c @ ([CreateHistoryTable, SelectLast count] @ Y)"
        by simp
      moreover have "set ([CreateHistoryTable, SelectLast count] @ Y) \<subseteq> ?A"
        using Y(2) by simp
      ultimately show ?thesis by blast
    qed
  qed
qed

text \<open>
  Claim C5, as the code has it. Neither \<open>execute\<close> nor \<open>rollback\<close> takes an advisory lock.
  On any client, over any connection and with any answers of the server, \<open>execute\<close> sends
  only the bootstrap, the \<open>SELECT\<close> of the applied rows, \<open>BEGIN\<close>, \<open>COMMIT\<close>, \<open>ROLLBACK\<close>,
  \<open>DEALLOCATE\<close>, and for migrations of its input the \<open>PREPARE\<close>, the text and the history
  \<open>INSERT\<close>; \<open>rollback\<close> sends only the bootstrap, its \<open>SELECT\<close> and \<open>DELETE\<close>s. No
  statement that takes or waits for a lock is among them, so every migration text that
  is run is run with no lock held.
\<close>

theorem no_advisory_lock:
  "set (sent c (snd (execute_on link srv migrations options c))) \<subseteq>
     {CreateHistoryTable, SelectApplied, Begin, Commit, Rollback, Deallocate} \<union>
     (\<Union>p \<in> set migrations.
        {Prepare (m_content p), Run (m_content p),
         InsertHistory (m_name p) (m_checksum p)}) \<and>
   set (sent c (snd (rollback_on link srv count c))) \<subseteq>
     {CreateHistoryTable, SelectLast count} \<union> range DeleteHistory"
proof (rule conjI)
  show "set (sent c (snd (execute_on link srv migrations options c))) \<subseteq>
     {CreateHistoryTable, SelectApplied, Begin, Commit, Rollback, Deallocate} \<union>
     (\<Union>p \<in> set migrations.
        {Prepare (m_content p), Run (m_content p),
         InsertHistory (m_name p) (m_checksum p)})"
    by (rule sends_sent [OF sends_execute_on])
  show "set (sent c (snd (rollback_on link srv count c))) \<subseteq>
     {CreateHistoryTable, SelectLast count} \<union> range DeleteHistory"
    by (rule sends_sent [OF sends_rollback_on])
qed

theorem no_advisory_lock_witness:
  "set (sent (demo_client (Some [demo_row ''0_x'' ''xx'']))
          (snd (execute_on lossy demo_server demo_batch (demo_options False)
                  (demo_client (Some [demo_row ''0_x'' ''xx''])))))
     \<subseteq> {CreateHistoryTable, SelectApplied, Begin, Commit, Rollback, Deallocate} \<union>
        (\<Union>p \<in> set demo_batch.
           {Prepare (m_content p), Run (m_content p),
            InsertHistory (m_name p) (m_checksum p)}) \<and>
   set (sent (demo_client (Some [demo_row ''0_x'' ''xx'']))
          (snd (rollback_on lossy demo_server 1 (demo_client (Some [demo_row ''0_x'' ''xx''])))))
     \<subseteq> {CreateHistoryTable, SelectLast 1} \<union> range DeleteHistory \<and>
   sent (demo_client (Some [demo_row ''0_x'' ''xx'']))
     (snd (execute_on lossy demo_server demo_batch (demo_options False)
             (demo_client (Some [demo_row ''0_x'' ''xx''])))) =
     [CreateHistoryTable, SelectApplied, Begin, Prepare ''CREATE TABLE a (id INT)'',
      Deallocate, Run ''CREATE TABLE a (id INT)'', Rollback] \<and>
   sent (demo_client (Some [demo_row ''0_x'' ''xx'']))
     (snd (rollback_on lossy demo_server 1 (demo_client (Some [demo_row ''0_x'' ''xx''])))) =
     [CreateHistoryTable, SelectLast 1, DeleteHistory ''0_x'']"
proof -
  have e: "sent (demo_client (Some [demo_row ''0_x'' ''xx'']))
     (snd (execute_on lossy demo_server demo_batch (demo_options False)
             (demo_client (Some [demo_row ''0_x'' ''xx''])))) =
     [CreateHistoryTable, SelectApplied, Begin, Prepare ''CREATE TABLE a (id INT)'',
      Deallocate, Run ''CREATE TABLE a (id INT)'', Rollback]"
    by code_simp
  have r: "sent (demo_client (Some [demo_row ''0_x'' ''xx'']))
     (snd (rollback_on lossy demo_server 1 (demo_client (Some [demo_row ''0_x'' ''xx''])))) =
     [CreateHistoryTable, SelectLast 1, DeleteHistory ''0_x'']"
    by code_simp
  note lock = no_advisory_lock [of "demo_client (Some [demo_row ''0_x'' ''xx''])" lossy
      demo_server demo_batch "demo_options False" 1]
  from lock [THEN conjunct1] lock [THEN conjunct2] e r
  show ?thesis by (intro conjI)
qed

text \<open>
  Claim C5 as the specification words it fails: a migration text is run, and is
  committed, and the statements before it are the bootstrap, the \<open>SELECT\<close>, \<open>BEGIN\<close>,
  \<open>PREPARE\<close> and \<open>DEALLOCATE\<close>; none of them takes a lock.
\<close>

theorem advisory_lock_counterexample:
  "sent (demo_client None)
     (snd (execute demo_server [demo_migration ''1'' ''1_a'' ''CREATE TABLE a (id INT)'' ''aa'']
             (demo_options False) (demo_client None))) =
     [CreateHistoryTable, SelectApplied, Begin, Prepare ''CREATE TABLE a (id INT)'',
      Deallocate, Run ''CREATE TABLE a (id INT)'', InsertHistory ''1_a'' ''aa'', Commit] \<and>
   schema (committed
     (snd (execute demo_server [demo_migration ''1'' ''1_a'' ''CREATE TABLE a (id INT)'' ''aa'']
             (demo_options False) (demo_client None)))) = [''CREATE TABLE a (id INT)'']"
  by code_simp

section \<open>No drift check\<close>

lemma apply_steps_version:
  "apply_steps link srv (m\<lparr>m_version := x\<rparr>) = apply_steps link srv m"
  by (simp add: apply_steps_def)

lemma rollback_and_fail_version:
  "rollback_and_fail link srv (m\<lparr>m_version := x\<rparr>) = rollback_and_fail link srv m"
  by (intro ext) (simp add: rollback_and_fail_def split: prod.splits sum.splits)

lemma apply_pending_version:
  "apply_pending link srv options (map (\<lambda>m. m\<lparr>m_version := v m\<rparr>) ps) run c =
   apply_pending link srv options ps run c"
  by (induction ps arbitrary: run c)
    (simp_all add: apply_steps_version rollback_and_fail_version
      split: prod.splits sum.splits option.splits)

lemma pending_of_version:
  "pending_of rows (map (\<lambda>m. m\<lparr>m_version := v m\<rparr>) ms) =
   map (\<lambda>m. m\<lparr>m_version := v m\<rparr>) (pending_of rows ms)"
  by (simp add: pending_of_def filter_map comp_def)

lemma apply_pending_force:
  "apply_pending link srv (options\<lparr>force := b\<rparr>) ps run c =
   apply_pending link srv options ps run c"
  by (induction ps arbitrary: run c) (simp_all split: prod.splits sum.splits option.splits)

lemma execute_on_force:
  "execute_on link srv ms (options\<lparr>force := b\<rparr>) c = execute_on link srv ms options c"
  by (simp add: execute_on_def apply_pending_force Let_def split: prod.splits sum.splits)

lemma execute_on_version:
  "execute_on link srv (map (\<lambda>m. m\<lparr>m_version := v m\<rparr>) ms) options c =
   execute_on link srv ms options c"
  by (simp add: execute_on_def pending_of_version apply_pending_version comp_def Let_def
      split: prod.splits sum.splits)

lemma execute_fault_bootstrap:
  assumes "link (length (log c)) = Some e"
  shows "execute_on link srv ms opts c =
     (\<lparr>success = False, migrationsRun = [], error = Some e\<rparr>,
      c\<lparr>log := log c @ [CreateHistoryTable]\<rparr>)"
  using assms by (simp add: execute_on_def ensureMigrationTable_def query_def)

lemma execute_fault_select:
  assumes "txn c = None"
    and "link (length (log c)) = None" and "link (Suc (length (log c))) = Some e"
  shows "execute_on link srv ms opts c =
     (\<lparr>success = False, migrationsRun = [], error = Some e\<rparr>,
      c\<lparr>committed := bootstrapped (committed c),
        log := log c @ [CreateHistoryTable, SelectApplied]\<rparr>)"
proof (cases "history (committed c)")
  case None
  with assms show ?thesis
    by (simp add: execute_on_def ensureMigrationTable_def getAppliedMigrations_def query_def
        bootstrapped_def)
next
  case (Some rows)
  with assms show ?thesis
    by (simp add: execute_on_def ensureMigrationTable_def getAppliedMigrations_def query_def
        bootstrapped_def)
qed

lemma pending_of_filter:
  "pending_of rows ms = filter (\<lambda>m. m_name m \<notin> h_name ` set rows) ms"
  by (simp add: pending_of_def)

lemma pending_of_idem: "pending_of rows (pending_of rows ms) = pending_of rows ms"
  by (simp add: pending_of_def)

lemma execute_on_pending:
  assumes "txn c = None"
  shows "execute_on link srv (pending_of (stored_rows (committed c)) ms) opts c =
         execute_on link srv ms opts c"
proof (cases "link (length (log c))")
  case (Some e)
  then show ?thesis by (simp add: execute_fault_bootstrap)
next
  case None
  show ?thesis
  proof (cases "link (Suc (length (log c)))")
    case (Some e)
    with assms None show ?thesis by (simp add: execute_fault_select)
  next
    case n2: None
    show ?thesis
      by (simp add: execute_prelude [OF assms None n2] pending_of_idem)
  qed
qed

lemma insert_row_agree:
  assumes "\<forall>n \<in> N. n \<in> h_name ` set r1 \<longleftrightarrow> n \<in> h_name ` set r2" and "name \<in> N"
  shows "(case insert_row name cs r1 of
            Inl e \<Rightarrow> insert_row name cs r2 = Inl e
          | Inr r1' \<Rightarrow>
              (\<exists>r2'. insert_row name cs r2 = Inr r2' \<and>
                 (\<forall>n \<in> N. n \<in> h_name ` set r1' \<longleftrightarrow> n \<in> h_name ` set r2')))"
proof -
  from assms have mem: "name \<in> h_name ` set r1 \<longleftrightarrow> name \<in> h_name ` set r2" by blast
  show ?thesis
  proof (cases "name \<in> h_name ` set r1")
    case True
    with mem show ?thesis by (simp add: insert_row_def)
  next
    case False
    with mem have "name \<notin> h_name ` set r2" by simp
    with False assms(1) show ?thesis by (simp add: insert_row_def)
  qed
qed

lemma answer_agree:
  assumes "agree N d1 d2" and "s \<in> set (transaction_of m)" and "m_name m \<in> N"
  shows "(case answer link srv s d1 n of
            Inl e \<Rightarrow> answer link srv s d2 n = Inl e
          | Inr d1' \<Rightarrow> (\<exists>d2'. answer link srv s d2 n = Inr d2' \<and> agree N d1' d2'))"
proof -
  from assms(2) consider "s = Begin" | "s = Prepare (m_content m)" | "s = Deallocate"
    | "s = Run (m_content m)" | "s = InsertHistory (m_name m) (m_checksum m)" | "s = Commit"
    by (auto simp: transaction_of_def)
  then show ?thesis
  proof cases
    case 1
    with assms(1) show ?thesis by (simp add: answer_def split: option.splits)
  next
    case 2
    with assms(1) show ?thesis
      by (auto simp: answer_def agree_def stored_rows_def split: option.splits sum.splits)
  next
    case 3
    with assms(1) show ?thesis by (simp add: answer_def split: option.splits)
  next
    case 4
    with assms(1) show ?thesis
      by (auto simp: answer_def agree_def stored_rows_def split: option.splits sum.splits)
  next
    case 5
    show ?thesis
    proof (cases "history d1")
      case None
      with assms(1) have "history d2 = None" by (simp add: agree_def)
      with None 5 show ?thesis by (simp add: answer_def split: option.splits)
    next
      case (Some r1)
      with assms(1) obtain r2 where h2: "history d2 = Some r2" by (auto simp: agree_def)
      from assms(1) Some h2
      have names: "\<forall>n \<in> N. n \<in> h_name ` set r1 \<longleftrightarrow> n \<in> h_name ` set r2"
        by (simp add: agree_def stored_rows_def)
      from assms(1) have sc: "schema d1 = schema d2" by (simp add: agree_def)
      note ins = insert_row_agree [OF names assms(3), of "m_checksum m"]
      show ?thesis
      proof (cases "insert_row (m_name m) (m_checksum m) r1")
        case (Inl e)
        with ins have "insert_row (m_name m) (m_checksum m) r2 = Inl e" by simp
        with Inl Some h2 5 show ?thesis by (simp add: answer_def split: option.splits)
      next
        case (Inr r1')
        with ins obtain r2' where "insert_row (m_name m) (m_checksum m) r2 = Inr r2'"
          and "\<forall>n \<in> N. n \<in> h_name ` set r1' \<longleftrightarrow> n \<in> h_name ` set r2'"
          by auto
        with Inr Some h2 5 sc show ?thesis
          by (simp add: answer_def agree_def stored_rows_def split: option.splits)
      qed
    qed
  next
    case 6
    with assms(1) show ?thesis by (simp add: answer_def split: option.splits)
  qed
qed

lemma first_failure_agree:
  assumes "agree N d1 d2" and "set ss \<subseteq> set (transaction_of m)" and "m_name m \<in> N"
  shows "(case first_failure link srv ss d1 n of
            Inl x \<Rightarrow> first_failure link srv ss d2 n = Inl x
          | Inr d1' \<Rightarrow> (\<exists>d2'. first_failure link srv ss d2 n = Inr d2' \<and> agree N d1' d2'))"
  using assms(1,2)
proof (induction ss arbitrary: d1 d2 n)
  case Nil
  then show ?case by simp
next
  case (Cons s ss)
  from Cons.prems(2) have s: "s \<in> set (transaction_of m)"
    and ss: "set ss \<subseteq> set (transaction_of m)" by simp_all
  note a = answer_agree [OF Cons.prems(1) s assms(3), of link srv n]
  show ?case
  proof (cases "answer link srv s d1 n")
    case (Inl e)
    with a show ?thesis by simp
  next
    case (Inr d1')
    with a obtain d2' where a2: "answer link srv s d2 n = Inr d2'" and ag: "agree N d1' d2'"
      by auto
    note ih = Cons.IH [OF ag ss, of "Suc n"]
    show ?thesis
    proof (cases "first_failure link srv ss d1' (Suc n)")
      case (Inl x)
      with ih Inr a2 show ?thesis by (cases x) simp
    next
      case r: (Inr d1'')
      with ih obtain d2'' where "first_failure link srv ss d2' (Suc n) = Inr d2''"
        and "agree N d1'' d2''" by auto
      with Inr a2 r show ?thesis by simp
    qed
  qed
qed

lemma apply_pending_agree:
  assumes "txn c1 = None" and "txn c2 = None" and "log c1 = log c2"
    and "agree N (committed c1) (committed c2)" and "m_name ` set ps \<subseteq> N"
  shows "fst (apply_pending link srv options ps run c1) =
           fst (apply_pending link srv options ps run c2) \<and>
         log (snd (apply_pending link srv options ps run c1)) =
           log (snd (apply_pending link srv options ps run c2)) \<and>
         agree N (committed (snd (apply_pending link srv options ps run c1)))
                 (committed (snd (apply_pending link srv options ps run c2)))"
  using assms
proof (induction ps arbitrary: run c1 c2)
  case Nil
  then show ?case by simp
next
  case (Cons m ps)
  from Cons.prems(5) have mN: "m_name m \<in> N" and psN: "m_name ` set ps \<subseteq> N" by simp_all
  note ff = first_failure_agree [OF Cons.prems(4) subset_refl mN, of link srv "length (log c1)"]
  show ?case
  proof (cases "first_failure link srv (transaction_of m) (committed c1) (length (log c1))")
    case (Inl x)
    obtain j e where x: "x = (j, e)" by (cases x)
    from Inl x have f1:
      "first_failure link srv (transaction_of m) (committed c1) (length (log c1)) = Inl (j, e)"
      by simp
    with ff Cons.prems(3) have f2:
      "first_failure link srv (transaction_of m) (committed c2) (length (log c2)) = Inl (j, e)"
      by simp
    note s1 = loop_step_failure(1,2,3) [OF Cons.prems(1) f1, of options ps run]
    note s2 = loop_step_failure(1,2,3) [OF Cons.prems(2) f2, of options ps run]
    from s1 s2 Cons.prems(3,4) show ?thesis by simp
  next
    case (Inr d1')
    with ff Cons.prems(3) obtain d2' where f2:
      "first_failure link srv (transaction_of m) (committed c2) (length (log c2)) = Inr d2'"
      and ag: "agree N d1' d2'" by auto
    show ?thesis
    proof (cases "onMigration options (m_name m)")
      case None
      note s1 = loop_step_commit(1) [OF Cons.prems(1) Inr None, of ps run]
      note s2 = loop_step_commit(1) [OF Cons.prems(2) f2 None, of ps run]
      have "fst (apply_pending link srv options ps (run @ [m_name m])
                   (c1\<lparr>committed := d1', log := log c1 @ transaction_of m\<rparr>)) =
            fst (apply_pending link srv options ps (run @ [m_name m])
                   (c2\<lparr>committed := d2', log := log c2 @ transaction_of m\<rparr>)) \<and>
          log (snd (apply_pending link srv options ps (run @ [m_name m])
                   (c1\<lparr>committed := d1', log := log c1 @ transaction_of m\<rparr>))) =
          log (snd (apply_pending link srv options ps (run @ [m_name m])
                   (c2\<lparr>committed := d2', log := log c2 @ transaction_of m\<rparr>))) \<and>
          agree N (committed (snd (apply_pending link srv options ps (run @ [m_name m])
                   (c1\<lparr>committed := d1', log := log c1 @ transaction_of m\<rparr>))))
                  (committed (snd (apply_pending link srv options ps (run @ [m_name m])
                   (c2\<lparr>committed := d2', log := log c2 @ transaction_of m\<rparr>))))"
        using Cons.prems(1,2,3) ag psN by (intro Cons.IH) simp_all
      then show ?thesis unfolding s1 s2 .
    next
      case (Some e)
      note s1 = loop_step_commit(2) [OF Cons.prems(1) Inr Some, of ps run]
      note s2 = loop_step_commit(2) [OF Cons.prems(2) f2 Some, of ps run]
      show ?thesis unfolding s1 s2 using Cons.prems(3) ag by simp
    qed
  qed
qed

lemma stored_rows_bootstrapped: "stored_rows (bootstrapped d) = stored_rows d"
  by (simp add: stored_rows_def bootstrapped_def split: option.splits)

lemma agree_bootstrapped: "agree N d1 d2 \<Longrightarrow> agree N (bootstrapped d1) (bootstrapped d2)"
  by (simp add: agree_def bootstrapped_history bootstrapped_schema stored_rows_bootstrapped)

lemma pending_of_agree:
  assumes "agree N d1 d2" and "m_name ` set ms \<subseteq> N"
  shows "pending_of (stored_rows d1) ms = pending_of (stored_rows d2) ms"
  unfolding pending_of_filter
proof (rule filter_cong [OF refl])
  fix m assume "m \<in> set ms"
  with assms(2) have "m_name m \<in> N" by blast
  with assms(1) show "(m_name m \<notin> h_name ` set (stored_rows d1)) =
                      (m_name m \<notin> h_name ` set (stored_rows d2))"
    unfolding agree_def by blast
qed

lemma execute_on_agree:
  assumes "txn c1 = None" and "txn c2 = None" and "log c1 = log c2"
    and "agree N (committed c1) (committed c2)" and "m_name ` set ms \<subseteq> N"
  shows "fst (execute_on link srv ms options c1) = fst (execute_on link srv ms options c2) \<and>
         log (snd (execute_on link srv ms options c1)) =
           log (snd (execute_on link srv ms options c2)) \<and>
         agree N (committed (snd (execute_on link srv ms options c1)))
                 (committed (snd (execute_on link srv ms options c2)))"
proof (cases "link (length (log c1))")
  case (Some e)
  then have "link (length (log c2)) = Some e" using assms(3) by simp
  with Some assms(3,4) show ?thesis by (simp add: execute_fault_bootstrap)
next
  case None
  then have n2: "link (length (log c2)) = None" using assms(3) by simp
  note ab = agree_bootstrapped [OF assms(4)]
  show ?thesis
  proof (cases "link (Suc (length (log c1)))")
    case (Some e)
    then have "link (Suc (length (log c2))) = Some e" using assms(3) by simp
    with Some None n2 assms(1,2,3) ab show ?thesis by (simp add: execute_fault_select)
  next
    case m1: None
    then have m2: "link (Suc (length (log c2))) = None" using assms(3) by simp
    let ?ps = "pending_of (stored_rows (committed c1)) ms"
    have pe: "pending_of (stored_rows (committed c2)) ms = ?ps"
      using pending_of_agree [OF assms(4,5)] by simp
    have sub: "m_name ` set ?ps \<subseteq> N" using assms(5) by (auto simp: pending_of_set)
    let ?b1 = "c1\<lparr>committed := bootstrapped (committed c1),
                  log := log c1 @ [CreateHistoryTable, SelectApplied]\<rparr>"
    let ?b2 = "c2\<lparr>committed := bootstrapped (committed c2),
                  log := log c2 @ [CreateHistoryTable, SelectApplied]\<rparr>"
    have loop: "fst (apply_pending link srv options ?ps [] ?b1) =
           fst (apply_pending link srv options ?ps [] ?b2) \<and>
         log (snd (apply_pending link srv options ?ps [] ?b1)) =
           log (snd (apply_pending link srv options ?ps [] ?b2)) \<and>
         agree N (committed (snd (apply_pending link srv options ?ps [] ?b1)))
                 (committed (snd (apply_pending link srv options ?ps [] ?b2)))"
      using assms(1,2,3) ab sub by (intro apply_pending_agree) simp_all
    show ?thesis
      unfolding execute_prelude [OF assms(1) None m1] execute_prelude [OF assms(2) n2 m2] pe
      using loop assms(3) ab by simp
  qed
qed

text \<open>
  Claim C1, as the code has it. \<open>execute\<close> makes no drift check, in any invocation and
  under any policy, over any connection.
  \<^item> The option \<open>force\<close> is never read: the call does the same with any value of it.
  \<^item> The versions are never read: the call does the same with any versions, so a pending
    migration is run wherever its version lies.
  \<^item> The files whose name is the name of a history row are not looked at: the call does
    the same when they are taken out of the input, whatever their checksum and their
    text are.
  \<^item> The history rows whose name is the name of no file are not looked at: on two
    clients that differ only in their history rows, and in which every name of the
    input is the name of a row in both or in neither, the call returns the same
    result, sends the same statements and leaves the same schema.
  \<^item> On the reliable connection, when every migration of the input carries the name of
    a history row the call succeeds and runs nothing.
\<close>

theorem no_drift_checks:
  "execute_on link srv migrations (options\<lparr>force := b\<rparr>) c =
     execute_on link srv migrations options c \<and>
   execute_on link srv (map (\<lambda>m. m\<lparr>m_version := v m\<rparr>) migrations) options c =
     execute_on link srv migrations options c \<and>
   (txn c = None \<longrightarrow>
      execute_on link srv
        (filter (\<lambda>m. m_name m \<notin> h_name ` set (stored_rows (committed c))) migrations)
        options c =
      execute_on link srv migrations options c) \<and>
   (txn c = None \<and> txn c' = None \<and> log c' = log c \<and>
    schema (committed c') = schema (committed c) \<and>
    (history (committed c') = None \<longleftrightarrow> history (committed c) = None) \<and>
    (\<forall>m \<in> set migrations.
       m_name m \<in> h_name ` set (stored_rows (committed c')) \<longleftrightarrow>
       m_name m \<in> h_name ` set (stored_rows (committed c))) \<longrightarrow>
      fst (execute_on link srv migrations options c') =
        fst (execute_on link srv migrations options c) \<and>
      log (snd (execute_on link srv migrations options c')) =
        log (snd (execute_on link srv migrations options c)) \<and>
      schema (committed (snd (execute_on link srv migrations options c'))) =
        schema (committed (snd (execute_on link srv migrations options c)))) \<and>
   (txn c = None \<and> m_name ` set migrations \<subseteq> h_name ` set (stored_rows (committed c)) \<longrightarrow>
      fst (execute srv migrations options c) =
        \<lparr>success = True, migrationsRun = [], error = None\<rparr>)"
proof (intro conjI impI)
  show "execute_on link srv migrations (options\<lparr>force := b\<rparr>) c =
     execute_on link srv migrations options c"
    by (rule execute_on_force)
next
  show "execute_on link srv (map (\<lambda>m. m\<lparr>m_version := v m\<rparr>) migrations) options c =
     execute_on link srv migrations options c"
    by (rule execute_on_version)
next
  assume "txn c = None"
  from execute_on_pending [OF this, of link srv migrations options]
  show "execute_on link srv
        (filter (\<lambda>m. m_name m \<notin> h_name ` set (stored_rows (committed c))) migrations)
        options c =
      execute_on link srv migrations options c"
    by (simp add: pending_of_filter)
next
  assume a: "txn c = None \<and> txn c' = None \<and> log c' = log c \<and>
    schema (committed c') = schema (committed c) \<and>
    (history (committed c') = None \<longleftrightarrow> history (committed c) = None) \<and>
    (\<forall>m \<in> set migrations.
       m_name m \<in> h_name ` set (stored_rows (committed c')) \<longleftrightarrow>
       m_name m \<in> h_name ` set (stored_rows (committed c)))"
  then have ag: "agree (m_name ` set migrations) (committed c') (committed c)"
    by (simp add: agree_def)
  from a have t: "txn c' = None" "txn c = None" "log c' = log c" by simp_all
  note ex = execute_on_agree [OF t ag subset_refl, of link srv options]
  from ex show "fst (execute_on link srv migrations options c') =
        fst (execute_on link srv migrations options c)" by simp
  from ex show "log (snd (execute_on link srv migrations options c')) =
        log (snd (execute_on link srv migrations options c))" by simp
  from ex show "schema (committed (snd (execute_on link srv migrations options c'))) =
        schema (committed (snd (execute_on link srv migrations options c)))"
    by (simp add: agree_def)
next
  assume a: "txn c = None \<and>
    m_name ` set migrations \<subseteq> h_name ` set (stored_rows (committed c))"
  then have "pending_of (stored_rows (committed c)) migrations = []"
    by (auto simp: pending_of_def filter_empty_conv)
  with a show "fst (execute srv migrations options c) =
        \<lparr>success = True, migrationsRun = [], error = None\<rparr>"
    by (simp add: execute_prelude reliable_def)
qed

theorem no_drift_checks_witness:
  "txn (demo_client (Some [demo_row ''1_a'' ''aa''])) = None \<and>
   txn (demo_client (Some [demo_row ''1_a'' ''aa'', demo_row ''9_z'' ''zz''])) = None \<and>
   log (demo_client (Some [demo_row ''1_a'' ''aa'', demo_row ''9_z'' ''zz''])) =
     log (demo_client (Some [demo_row ''1_a'' ''aa''])) \<and>
   schema (committed (demo_client (Some [demo_row ''1_a'' ''aa'', demo_row ''9_z'' ''zz'']))) =
     schema (committed (demo_client (Some [demo_row ''1_a'' ''aa'']))) \<and>
   m_name ` set [demo_migration ''1'' ''1_a'' ''CREATE TABLE a (id INT)'' ''edited''] \<subseteq>
     h_name ` set (stored_rows (committed (demo_client (Some [demo_row ''1_a'' ''aa''])))) \<and>
   fst (execute demo_server [demo_migration ''1'' ''1_a'' ''CREATE TABLE a (id INT)'' ''edited'']
          (demo_options False) (demo_client (Some [demo_row ''1_a'' ''aa'']))) =
     \<lparr>success = True, migrationsRun = [], error = None\<rparr> \<and>
   fst (execute demo_server [demo_migration ''1'' ''1_a'' ''CREATE TABLE a (id INT)'' ''edited'']
          (demo_options False)
          (demo_client (Some [demo_row ''1_a'' ''aa'', demo_row ''9_z'' ''zz'']))) =
     fst (execute demo_server
            [demo_migration ''1'' ''1_a'' ''CREATE TABLE a (id INT)'' ''edited'']
            (demo_options False) (demo_client (Some [demo_row ''1_a'' ''aa'']))) \<and>
   execute demo_server
     (filter (\<lambda>m. m_name m \<notin>
                h_name ` set (stored_rows (committed (demo_client (Some [demo_row ''1_a'' ''aa''])))))
        [demo_migration ''1'' ''1_a'' ''CREATE TABLE a (id INT)'' ''edited''])
     (demo_options False) (demo_client (Some [demo_row ''1_a'' ''aa''])) =
   execute demo_server [demo_migration ''1'' ''1_a'' ''CREATE TABLE a (id INT)'' ''edited'']
     (demo_options False) (demo_client (Some [demo_row ''1_a'' ''aa''])) \<and>
   fst (execute demo_server
          [demo_migration ''1'' ''1_a'' ''CREATE TABLE a (id INT)'' ''edited'',
           demo_migration ''2'' ''2_b'' ''CREATE TABLE b (id INT)'' ''bb'']
          (demo_options False)
          (demo_client (Some [demo_row ''1_a'' ''aa'', demo_row ''9_z'' ''zz'']))) =
     fst (execute demo_server
            [demo_migration ''1'' ''1_a'' ''CREATE TABLE a (id INT)'' ''edited'',
             demo_migration ''2'' ''2_b'' ''CREATE TABLE b (id INT)'' ''bb'']
            (demo_options False) (demo_client (Some [demo_row ''1_a'' ''aa'']))) \<and>
   fst (execute demo_server
          [demo_migration ''1'' ''1_a'' ''CREATE TABLE a (id INT)'' ''edited'',
           demo_migration ''2'' ''2_b'' ''CREATE TABLE b (id INT)'' ''bb'']
          (demo_options False) (demo_client (Some [demo_row ''1_a'' ''aa'']))) =
     \<lparr>success = True, migrationsRun = [''2_b''], error = None\<rparr>"
proof -
  let ?c = "demo_client (Some [demo_row ''1_a'' ''aa''])"
  let ?c' = "demo_client (Some [demo_row ''1_a'' ''aa'', demo_row ''9_z'' ''zz''])"
  let ?ms = "[demo_migration ''1'' ''1_a'' ''CREATE TABLE a (id INT)'' ''edited'']"
  have h1: "txn ?c = None" by (simp add: demo_client_def)
  have h2: "txn ?c' = None" by (simp add: demo_client_def)
  have h3: "log ?c' = log ?c" by (simp add: demo_client_def)
  have h4: "schema (committed ?c') = schema (committed ?c)" by (simp add: demo_client_def)
  have h5: "history (committed ?c') = None \<longleftrightarrow> history (committed ?c) = None"
    by (simp add: demo_client_def)
  have h6: "\<forall>m \<in> set ?ms.
       m_name m \<in> h_name ` set (stored_rows (committed ?c')) \<longleftrightarrow>
       m_name m \<in> h_name ` set (stored_rows (committed ?c))"
    by (simp add: demo_migration_def demo_client_def stored_rows_def demo_row_def)
  have h7: "m_name ` set ?ms \<subseteq> h_name ` set (stored_rows (committed ?c))"
    by (simp add: demo_migration_def demo_client_def stored_rows_def demo_row_def)
  note d = no_drift_checks [where link = reliable and srv = demo_server and migrations = ?ms
      and options = "demo_options False" and c = ?c and c' = ?c']
  note d3 = d [THEN conjunct2, THEN conjunct2, THEN conjunct1, rule_format, OF h1]
  note d4 = d [THEN conjunct2, THEN conjunct2, THEN conjunct2, THEN conjunct1]
  have d4': "fst (execute demo_server ?ms (demo_options False) ?c') =
             fst (execute demo_server ?ms (demo_options False) ?c)"
    using d4 h1 h2 h3 h4 h5 h6 by blast
  note d5 = d [THEN conjunct2, THEN conjunct2, THEN conjunct2, THEN conjunct2]
  have d5': "fst (execute demo_server ?ms (demo_options False) ?c) =
     \<lparr>success = True, migrationsRun = [], error = None\<rparr>"
    using d5 h1 h7 by blast
  let ?ms2 = "[demo_migration ''1'' ''1_a'' ''CREATE TABLE a (id INT)'' ''edited'',
               demo_migration ''2'' ''2_b'' ''CREATE TABLE b (id INT)'' ''bb'']"
  have k6: "\<forall>m \<in> set ?ms2.
       m_name m \<in> h_name ` set (stored_rows (committed ?c')) \<longleftrightarrow>
       m_name m \<in> h_name ` set (stored_rows (committed ?c))"
    by (simp add: demo_migration_def demo_client_def stored_rows_def demo_row_def)
  note e = no_drift_checks [where link = reliable and srv = demo_server and migrations = ?ms2
      and options = "demo_options False" and c = ?c and c' = ?c']
  note e4 = e [THEN conjunct2, THEN conjunct2, THEN conjunct2, THEN conjunct1]
  have e4': "fst (execute demo_server ?ms2 (demo_options False) ?c') =
             fst (execute demo_server ?ms2 (demo_options False) ?c)"
    using e4 h1 h2 h3 h4 h5 k6 by blast
  have run: "fst (execute demo_server ?ms2 (demo_options False) ?c) =
     \<lparr>success = True, migrationsRun = [''2_b''], error = None\<rparr>"
    by code_simp
  from h1 h2 h3 h4 h7 d5' d4' d3 e4' run show ?thesis by (intro conjI)
qed

text \<open>
  Claim C1 as the specification words it fails. Under the default policy each of
  these calls succeeds: the history holds a row with no file; the file of an applied
  migration has another checksum than its row; the pending migration \<open>1_a\<close> has a lower
  version than the applied \<open>2_b\<close>, and is run; and all three at once, where the pending
  \<open>2_b\<close> is run beside the edited \<open>1_a\<close> and below the row \<open>9_z\<close> that has no file.
\<close>

theorem drift_checks_counterexample:
  "\<not> force (demo_options False) \<and>
   fst (execute demo_server [] (demo_options False)
          (demo_client (Some [demo_row ''1_a'' ''aa'']))) =
     \<lparr>success = True, migrationsRun = [], error = None\<rparr> \<and>
   m_checksum (demo_migration ''1'' ''1_a'' ''CREATE TABLE a (id INT)'' ''edited'') \<noteq>
     h_checksum (demo_row ''1_a'' ''aa'') \<and>
   fst (execute demo_server [demo_migration ''1'' ''1_a'' ''CREATE TABLE a (id INT)'' ''edited'']
          (demo_options False) (demo_client (Some [demo_row ''1_a'' ''aa'']))) =
     \<lparr>success = True, migrationsRun = [], error = None\<rparr> \<and>
   fst (execute demo_server
          [demo_migration ''1'' ''1_a'' ''CREATE TABLE a (id INT)'' ''aa'',
           demo_migration ''2'' ''2_b'' ''CREATE TABLE b (id INT)'' ''bb'']
          (demo_options False) (demo_client (Some [demo_row ''2_b'' ''bb'']))) =
     \<lparr>success = True, migrationsRun = [''1_a''], error = None\<rparr> \<and>
   fst (execute demo_server
          [demo_migration ''1'' ''1_a'' ''CREATE TABLE a (id INT)'' ''edited'',
           demo_migration ''2'' ''2_b'' ''CREATE TABLE b (id INT)'' ''bb'']
          (demo_options False)
          (demo_client (Some [demo_row ''1_a'' ''aa'', demo_row ''9_z'' ''zz'']))) =
     \<lparr>success = True, migrationsRun = [''2_b''], error = None\<rparr>"
  by code_simp

section \<open>Statement splitting\<close>

lemma split_on_nonempty: "split_on sep s \<noteq> []"
  by (induction s) (auto split: list.splits)

lemma join_with_sep_first:
  "ps \<noteq> [] \<Longrightarrow> join_with sep ([] # ps) = sep @ join_with sep ps"
  by (cases ps) simp_all

lemma join_with_push: "join_with sep ((c # p) # ps) = c # join_with sep (p # ps)"
  by (cases ps) simp_all

lemma split_on_join: "join_with [sep] (split_on sep s) = s"
proof (induction s)
  case Nil
  then show ?case by simp
next
  case (Cons c s)
  show ?case
  proof (cases "c = sep")
    case True
    with Cons show ?thesis by (simp add: join_with_sep_first split_on_nonempty)
  next
    case False
    obtain p ps where sp: "split_on sep s = p # ps"
      using split_on_nonempty [of sep s] by (cases "split_on sep s") auto
    with Cons False show ?thesis by (simp add: join_with_push)
  qed
qed

lemma split_on_length: "length (split_on sep s) = Suc (count_list s sep)"
proof (induction s)
  case Nil
  then show ?case by simp
next
  case (Cons c s)
  obtain p ps where sp: "split_on sep s = p # ps"
    using split_on_nonempty [of sep s] by (cases "split_on sep s") auto
  with Cons show ?case by auto
qed

lemma split_on_no_sep: "p \<in> set (split_on sep s) \<Longrightarrow> sep \<notin> set p"
proof (induction s arbitrary: p)
  case Nil
  then show ?case by simp
next
  case (Cons c s)
  obtain q qs where sp: "split_on sep s = q # qs"
    using split_on_nonempty [of sep s] by (cases "split_on sep s") auto
  show ?case
  proof (cases "c = sep")
    case True
    with Cons show ?thesis by auto
  next
    case False
    with Cons.prems sp have "p = c # q \<or> p \<in> set qs" by simp
    then show ?thesis
    proof
      assume "p = c # q"
      moreover have "sep \<notin> set q" using Cons.IH [of q] sp by simp
      ultimately show ?thesis using False by simp
    next
      assume "p \<in> set qs"
      then show ?thesis using Cons.IH [of p] sp by simp
    qed
  qed
qed

lemma trim_subset: "set (trim p) \<subseteq> set p"
proof -
  have "set (trim p) \<subseteq> set (dropWhile is_space p)"
    unfolding trim_def using set_dropWhileD [of _ is_space "rev (dropWhile is_space p)"] by auto
  also have "\<dots> \<subseteq> set p" using set_dropWhileD [of _ is_space p] by auto
  finally show ?thesis .
qed

text \<open>
  Claim C7, as the code has it. The parser cuts the text at every semicolon, wherever
  it stands: the pieces joined with semicolons give the text back, there is one piece
  more than there are semicolons, and no piece holds one. The statements are the
  trimmed pieces that are not empty and do not begin with \<open>--\<close>. Quotes, parentheses
  and block comments play no part, and a line comment is dropped only where it begins
  a piece.
\<close>

theorem statements_cut_at_every_semicolon:
  "join_with '';'' (split_on CHR '';'' s) = s \<and>
   length (split_on CHR '';'' s) = Suc (count_list s CHR '';'') \<and>
   (\<forall>p \<in> set (split_on CHR '';'' s). CHR '';'' \<notin> set p) \<and>
   set (parseSchema_statements s) =
     {trim p | p. p \<in> set (split_on CHR '';'' s) \<and> trim p \<noteq> [] \<and>
                  \<not> startsWith (trim p) ''--''} \<and>
   (\<forall>st \<in> set (parseSchema_statements s). CHR '';'' \<notin> set st)"
proof -
  have 1: "join_with '';'' (split_on CHR '';'' s) = s" by (rule split_on_join)
  have 2: "length (split_on CHR '';'' s) = Suc (count_list s CHR '';'')"
    by (rule split_on_length)
  have 3: "\<forall>p \<in> set (split_on CHR '';'' s). CHR '';'' \<notin> set p"
    using split_on_no_sep by blast
  have 4: "set (parseSchema_statements s) =
     {trim p | p. p \<in> set (split_on CHR '';'' s) \<and> trim p \<noteq> [] \<and>
                  \<not> startsWith (trim p) ''--''}"
    by (auto simp: parseSchema_statements_def)
  have 5: "\<forall>st \<in> set (parseSchema_statements s). CHR '';'' \<notin> set st"
  proof
    fix st assume "st \<in> set (parseSchema_statements s)"
    with 4 obtain p where "p \<in> set (split_on CHR '';'' s)" and "st = trim p" by auto
    with 3 trim_subset [of p] show "CHR '';'' \<notin> set st" by blast
  qed
  from 1 2 3 4 5 show ?thesis by blast
qed

theorem statements_cut_at_every_semicolon_witness:
  "parseSchema_statements ''CREATE TABLE a (id INT); -- done; CREATE TABLE b (id INT);'' =
     [''CREATE TABLE a (id INT)'', ''CREATE TABLE b (id INT)''] \<and>
   length (split_on CHR '';'' ''CREATE TABLE a (id INT); -- done; CREATE TABLE b (id INT);'') =
     Suc (count_list ''CREATE TABLE a (id INT); -- done; CREATE TABLE b (id INT);'' CHR '';'') \<and>
   join_with '';'' (split_on CHR '';''
       ''CREATE TABLE a (id INT); -- done; CREATE TABLE b (id INT);'') =
     ''CREATE TABLE a (id INT); -- done; CREATE TABLE b (id INT);''"
proof -
  have ev: "parseSchema_statements
      ''CREATE TABLE a (id INT); -- done; CREATE TABLE b (id INT);'' =
     [''CREATE TABLE a (id INT)'', ''CREATE TABLE b (id INT)'']"
    by code_simp
  from statements_cut_at_every_semicolon
    [of "''CREATE TABLE a (id INT); -- done; CREATE TABLE b (id INT);''"] ev
  show ?thesis by blast
qed

text \<open>
  Claim C7 as the specification words it fails: a semicolon inside a string literal
  inside parentheses ends a statement, and so does one inside a block comment.
\<close>

theorem statements_respect_quotes_counterexample:
  "parseSchema_statements ''CREATE TABLE t (a TEXT DEFAULT 'x;y');'' =
     [''CREATE TABLE t (a TEXT DEFAULT 'x'', ''y')''] \<and>
   parseSchema_statements ''/* old; new */ CREATE TABLE t (id INT);'' =
     [''/* old'', ''new */ CREATE TABLE t (id INT)'']"
  by code_simp

section \<open>Creating a migration\<close>

text \<open>
  Claim C3 against the code. \<open>create\<close> leaves the directory as it was, for every input;
  the checksum and the version of the record it returns are as claimed. On an empty
  directory \<open>migrations\<close>, with the name \<open>add_users\<close>, the returned path is
  \<open>migrations/1_add_users. sql\<close> and no file is there after the call.
\<close>

theorem create_writes_no_file:
  "snd (create sha256 join_path migrationsDir dir name content) = dir \<and>
   m_checksum (fst (create sha256 join_path migrationsDir dir name content)) = sha256 content \<and>
   m_version (fst (create sha256 join_path migrationsDir dir name content)) =
     string_of_nat (getNextVersionNumber dir) \<and>
   m_path (fst (create sha256 (\<lambda>d f. d @ ''/'' @ f) ''migrations'' (Some [])
                  ''add_users'' ''CREATE TABLE users (id INTEGER);'')) =
     ''migrations/1_add_users. sql'' \<and>
   \<not> file_exists (\<lambda>d f. d @ ''/'' @ f) ''migrations''
       (snd (create sha256 (\<lambda>d f. d @ ''/'' @ f) ''migrations'' (Some [])
                  ''add_users'' ''CREATE TABLE users (id INTEGER);''))
       ''migrations/1_add_users. sql''"
proof -
  have one: "string_of_nat (Suc 0) = ''1''" by code_simp
  show ?thesis
    by (simp add: create_def file_exists_def getNextVersionNumber_def Let_def one
        del: string_of_nat.simps)
qed

end
